theory Spec2Isabelle
  imports Complex_Main "HOL-Library.Sublist"
begin

section \<open>Text\<close>

text \<open>
  A Python \<open>str\<close> is a sequence of code points. The model covers the code points
  U+0000 to U+00FF, one \<open>char\<close> each, and gives the character classes and case
  mappings that Python has on them. Two upper-case images lie above U+00FF
  (of U+00B5 and of U+00FF); \<open>upper_char\<close> leaves these two characters as they are,
  which no test of the program can tell apart, since the upper-cased text is only ever
  compared with ASCII words.
\<close>

definition code :: "char \<Rightarrow> nat" where
  "code c = of_char c"

definition is_space :: "char \<Rightarrow> bool" where
  "is_space c = (let n = code c in (9 \<le> n \<and> n \<le> 13) \<or> (28 \<le> n \<and> n \<le> 32) \<or> n = 133 \<or> n = 160)"

definition is_digit :: "char \<Rightarrow> bool" where
  "is_digit c = (let n = code c in 48 \<le> n \<and> n \<le> 57)"

definition is_upper :: "char \<Rightarrow> bool" where
  "is_upper c = (let n = code c in (65 \<le> n \<and> n \<le> 90) \<or> (192 \<le> n \<and> n \<le> 222 \<and> n \<noteq> 215))"

definition is_lower :: "char \<Rightarrow> bool" where
  "is_lower c = (let n = code c in (97 \<le> n \<and> n \<le> 122) \<or> (224 \<le> n \<and> n \<le> 254 \<and> n \<noteq> 247))"

definition is_word :: "char \<Rightarrow> bool" where
  \<comment> \<open>\<open>\w\<close>: alphanumeric or underscore\<close>
  "is_word c = (let n = code c in
     is_digit c \<or> (65 \<le> n \<and> n \<le> 90) \<or> n = 95 \<or> (97 \<le> n \<and> n \<le> 122) \<or>
     n = 170 \<or> n = 178 \<or> n = 179 \<or> n = 181 \<or> n = 185 \<or> n = 186 \<or>
     n = 188 \<or> n = 189 \<or> n = 190 \<or> (192 \<le> n \<and> n \<noteq> 215 \<and> n \<noteq> 247))"

definition lower_char :: "char \<Rightarrow> char" where
  "lower_char c = (if is_upper c then char_of (code c + 32) else c)"

definition upper1 :: "char \<Rightarrow> char" where
  \<comment> \<open>the upper-case partner that is again a single character\<close>
  "upper1 c = (if is_lower c then char_of (code c - 32) else c)"

definition upper_char :: "char \<Rightarrow> string" where
  "upper_char c = (if code c = 223 then ''SS'' else [upper1 c])"

definition str_lower :: "string \<Rightarrow> string" where
  "str_lower s = map lower_char s"

definition str_upper :: "string \<Rightarrow> string" where
  "str_upper s = concat (map upper_char s)"

definition inert :: "char \<Rightarrow> bool" where
  \<comment> \<open>a character below the letters: no other character has it in its upper-case image\<close>
  "inert d = (code d < 65)"

text \<open>\<open>sub in s\<close>: \<open>sub\<close> occurs in \<open>s\<close> as a contiguous run.\<close>

fun str_in :: "string \<Rightarrow> string \<Rightarrow> bool" where
  "str_in sub [] = (sub = [])"
| "str_in sub (c # cs) = (prefix sub (c # cs) \<or> str_in sub cs)"

definition str_strip :: "string \<Rightarrow> string" where
  "str_strip s = rev (dropWhile is_space (rev (dropWhile is_space s)))"

text \<open>\<open>s.split()\<close>: the maximal runs of characters that are not whitespace.\<close>

fun split_acc :: "string \<Rightarrow> string \<Rightarrow> string list" where
  "split_acc w [] = (if w = [] then [] else [rev w])"
| "split_acc w (c # cs) =
     (if is_space c then (if w = [] then split_acc [] cs else rev w # split_acc [] cs)
      else split_acc (c # w) cs)"

definition str_split :: "string \<Rightarrow> string list" where
  "str_split s = split_acc [] s"

section \<open>Regular expressions\<close>

text \<open>
  The part of the syntax of Python's \<open>re\<close> that the program uses: literals, the classes
  \<open>\d\<close>, \<open>\s\<close>, \<open>.\<close> and \<open>[a-b...]\<close>, the anchor \<open>\b\<close>, sequence, alternation,
  the greedy quantifiers \<open>?\<close> on an expression and \<open>*\<close>, \<open>+\<close> on a single character
  class, and numbered capture groups. \<open>Diameter_sign\<close> (U+2300) and \<open>Greek_mu\<close>
  (U+03BC) are the two literals of the patterns above U+00FF.
\<close>

datatype item =
    Lit char
  | Diameter_sign
  | Greek_mu
  | Digit
  | Space
  | AnyChar
  | Range "(char \<times> char) list"

datatype regex =
    Item item
  | Bound
  | Eps
  | Seq regex regex
  | Alt regex regex
  | Opt regex
  | Rep nat item
  | Group nat regex

fun in_ranges :: "(char \<times> char) list \<Rightarrow> char \<Rightarrow> bool" where
  "in_ranges [] c = False"
| "in_ranges ((a, b) # rs) c = ((code a \<le> code c \<and> code c \<le> code b) \<or> in_ranges rs c)"

text \<open>
  \<open>accepts ic it c\<close>: the item matches the character; \<open>ic\<close> is the flag \<open>re.I\<close>.
  Under \<open>re.I\<close> the pattern letter U+03BC also matches the micro sign U+00B5.
  Above U+00FF, outside the model, \<open>re.I\<close> gives three pattern letters further
  matches: \<open>s\<close> matches U+017F, \<open>k\<close> matches U+212A, and \<open>i\<close> matches U+0130 and
  U+0131.
\<close>

fun accepts :: "bool \<Rightarrow> item \<Rightarrow> char \<Rightarrow> bool" where
  "accepts ic (Lit l) c = (if ic then lower_char c = lower_char l else c = l)"
| "accepts ic Diameter_sign c = False"
| "accepts ic Greek_mu c = (ic \<and> code c = 181)"
| "accepts ic Digit c = is_digit c"
| "accepts ic Space c = is_space c"
| "accepts ic AnyChar c = (code c \<noteq> 10)"
| "accepts ic (Range rs) c =
     (in_ranges rs c \<or> (ic \<and> (in_ranges rs (lower_char c) \<or> in_ranges rs (upper1 c))))"

text \<open>
  A matcher state: the character before the current position (for \<open>\b\<close>), the text
  that is left, and the groups captured so far, latest first.
\<close>

type_synonym mstate = "char option \<times> string \<times> (nat \<times> string) list"

definition at_boundary :: "char option \<Rightarrow> string \<Rightarrow> bool" where
  "at_boundary p s =
     ((case p of None \<Rightarrow> False | Some c \<Rightarrow> is_word c) \<noteq>
      (case s of [] \<Rightarrow> False | c # _ \<Rightarrow> is_word c))"

text \<open>
  \<open>rep ic k it\<close>: at least \<open>k\<close> characters of the class, as many as possible first.
\<close>

fun rep :: "bool \<Rightarrow> nat \<Rightarrow> item \<Rightarrow> mstate \<Rightarrow> mstate list" where
  "rep ic k it (p, [], g) = (if k = 0 then [(p, [], g)] else [])"
| "rep ic k it (p, c # cs, g) =
     (if accepts ic it c then rep ic (k - 1) it (Some c, cs, g) else []) @
     (if k = 0 then [(p, c # cs, g)] else [])"

text \<open>
  \<open>step ic r st\<close>: every way the expression can match at the state, in the order in
  which the backtracking matcher of \<open>re\<close> tries them; the head is the match it reports.
\<close>

fun step :: "bool \<Rightarrow> regex \<Rightarrow> mstate \<Rightarrow> mstate list" where
  "step ic (Item it) (p, s, g) =
     (case s of [] \<Rightarrow> [] | c # cs \<Rightarrow> if accepts ic it c then [(Some c, cs, g)] else [])"
| "step ic Bound (p, s, g) = (if at_boundary p s then [(p, s, g)] else [])"
| "step ic Eps st = [st]"
| "step ic (Seq r1 r2) st = concat (map (step ic r2) (step ic r1 st))"
| "step ic (Alt r1 r2) st = step ic r1 st @ step ic r2 st"
| "step ic (Opt r) st = step ic r st @ [st]"
| "step ic (Rep k it) st = rep ic k it st"
| "step ic (Group n r) (p, s, g) =
     map (\<lambda>(p', s', g'). (p', s', (n, take (length s - length s') s) # g'))
       (step ic r (p, s, g))"

definition first_way :: "bool \<Rightarrow> regex \<Rightarrow> mstate \<Rightarrow> mstate option" where
  \<comment> \<open>the way of matching that is tried first and succeeds\<close>
  "first_way ic r st = (case step ic r st of [] \<Rightarrow> None | x # _ \<Rightarrow> Some x)"

text \<open>
  A match object: the matched text and the captured groups. \<open>scan\<close> lists the
  non-overlapping matches from left to right, as \<open>finditer\<close> does: the search moves
  on one character when nothing matches at a position, and after an empty match the
  next match at the same position has to be a non-empty one (\<open>adv\<close>). Under \<open>adv\<close>
  only shorter rests are left by the filter, so the branch \<open>if adv then []\<close> is never
  taken; it is there for the termination of the definition.
\<close>

type_synonym match = "string \<times> (nat \<times> string) list"

function scan :: "bool \<Rightarrow> regex \<Rightarrow> bool \<Rightarrow> char option \<Rightarrow> string \<Rightarrow> match list" where
  "scan ic r adv p s =
     (case filter (\<lambda>(p', s', g'). \<not> adv \<or> length s' < length s) (step ic r (p, s, [])) of
        (p', s', g') # _ \<Rightarrow>
          (take (length s - length s') s, g') #
          (if length s' < length s then scan ic r False p' s'
           else if adv then [] else scan ic r True p s)
      | [] \<Rightarrow> (case s of [] \<Rightarrow> [] | c # cs \<Rightarrow> scan ic r False (Some c) cs))"
  by pat_completeness auto
termination
  by (relation "measure (\<lambda>(ic, r, adv, p, s). 2 * length s + (if adv then 0 else 1))") auto

declare scan.simps [simp del]

definition finditer :: "bool \<Rightarrow> regex \<Rightarrow> string \<Rightarrow> match list" where
  "finditer ic r s = scan ic r False None s"

definition search :: "bool \<Rightarrow> regex \<Rightarrow> string \<Rightarrow> match option" where
  "search ic r s = (case finditer ic r s of [] \<Rightarrow> None | m # _ \<Rightarrow> Some m)"

text \<open>\<open>m.group(n)\<close>: \<open>None\<close> for a group that took no part in the match.\<close>

definition match_group :: "match \<Rightarrow> nat \<Rightarrow> string option" where
  "match_group m n = (if n = 0 then Some (fst m) else map_of (snd m) n)"

fun groups_of :: "regex \<Rightarrow> nat" where
  "groups_of (Seq r1 r2) = groups_of r1 + groups_of r2"
| "groups_of (Alt r1 r2) = groups_of r1 + groups_of r2"
| "groups_of (Opt r) = groups_of r"
| "groups_of (Group n r) = Suc (groups_of r)"
| "groups_of r = 0"

text \<open>
  \<open>findall\<close> gives, for each match, the matched text when the pattern has no group, the
  text of the group when it has one, and the tuple of the texts of all groups when it
  has more; a group that took no part gives the empty string.
\<close>

datatype found = Str string | Tuple "string list"

definition group_text :: "match \<Rightarrow> nat \<Rightarrow> string" where
  "group_text m n = (case match_group m n of None \<Rightarrow> [] | Some t \<Rightarrow> t)"

definition findall :: "bool \<Rightarrow> regex \<Rightarrow> string \<Rightarrow> found list" where
  "findall ic r s =
     map (\<lambda>m. if groups_of r = 0 then Str (fst m)
              else if groups_of r = 1 then Str (group_text m 1)
              else Tuple (map (group_text m) [1 ..< Suc (groups_of r)]))
       (finditer ic r s)"

fun lit :: "string \<Rightarrow> regex" where
  "lit [] = Eps"
| "lit [c] = Item (Lit c)"
| "lit (c # cs) = Seq (Item (Lit c)) (lit cs)"

fun seqs :: "regex list \<Rightarrow> regex" where
  "seqs [] = Eps"
| "seqs [r] = r"
| "seqs (r # rs) = Seq r (seqs rs)"

fun alts :: "regex list \<Rightarrow> regex" where
  "alts [] = Eps"
| "alts [r] = r"
| "alts (r # rs) = Alt r (alts rs)"

section \<open>Pattern library\<close>

definition decimals :: "nat \<Rightarrow> regex" where
  \<comment> \<open>\<open>(\.\d+)?\<close> as group \<open>n\<close>\<close>
  "decimals n = Opt (Group n (Seq (Item (Lit CHR ''.'')) (Rep 1 Digit)))"

definition material_re :: regex where
  "material_re = seqs [Bound,
     Group 1 (alts [lit ''STL'', lit ''Steel'',
       seqs [lit ''SS'', Opt (Item Space), Opt (Group 2 (alts [lit ''304'', lit ''316'']))],
       seqs [lit ''Al'', Opt (lit ''uminum''), Opt (Item Space), lit ''6061''],
       lit ''Brass'', lit ''Bronze'', lit ''ABS'', lit ''PEEK'']),
     Bound]"

definition finish_re :: regex where
  "finish_re = seqs [Bound,
     Group 1 (alts [lit ''Anodized'', lit ''Black Oxide'', lit ''Powder Coat'',
       lit ''Zinc Plated'', lit ''Hot Dip'',
       seqs [lit ''Ra'', Opt (Item Space), Rep 1 Digit, decimals 2,
         Group 3 (Seq (Opt (Item Space))
           (Opt (Group 4 (alts [Seq (Item Greek_mu) (lit ''m''), lit ''um'', lit ''microns'']))))]]),
     Bound]"

definition general_tolerance_re :: regex where
  "general_tolerance_re = seqs [
     Group 1 (Alt (Item (Lit (CHR 0xB1))) (lit ''+/-'')),
     Opt (Item Space), Rep 1 Digit, decimals 2,
     Group 3 (Seq (Opt (Item Space)) (Opt (Group 4 (alts [lit ''mm'', lit ''in'', lit ''inch'']))))]"

definition surface_roughness_re :: regex where
  "surface_roughness_re = seqs [lit ''Ra'', Opt (Item Space), Rep 1 Digit, decimals 1,
     Opt (Item Space),
     Opt (Group 2 (alts [Seq (Item Greek_mu) (lit ''m''), lit ''um'', lit ''microns'']))]"

definition threads_re :: regex where
  "threads_re = seqs [Bound,
     Group 1 (alts [
       seqs [lit ''M'', Rep 1 Digit, decimals 2,
         Opt (Group 3 (seqs [lit ''x'', Rep 1 Digit, decimals 4]))],
       seqs [lit ''UNC'', Opt (Item Space), Rep 1 Digit, lit ''-'', Rep 1 Digit],
       seqs [lit ''UNF'', Opt (Item Space), Rep 1 Digit, lit ''-'', Rep 1 Digit],
       lit ''BSPT'', lit ''NPT'']),
     Bound]"

definition diameters_re :: regex where
  "diameters_re = seqs [
     Group 1 (Alt (Item Diameter_sign) (seqs [Bound, lit ''DIA'', Bound])),
     Opt (Item Space), Rep 1 Digit, decimals 2]"

definition weld_notes_re :: regex where
  "weld_notes_re = seqs [Bound, lit ''WELD'', Opt (Group 1 (lit ''ING'')), Bound, Rep 0 AnyChar]"

definition standards_re :: regex where
  "standards_re = seqs [Bound,
     Group 1 (alts [lit ''AWS'', lit ''ASME'', lit ''ASTM'', lit ''DIN'', lit ''SAES'',
       lit ''AMSS'', lit ''ISO'']),
     Opt (lit ''-''),
     Rep 1 (Range [(CHR ''A'', CHR ''Z''), (CHR ''0'', CHR ''9'')]),
     Bound]"

text \<open>Every pattern is compiled with \<open>re.I\<close>; the dictionary keeps this order.\<close>

definition patterns :: "(string \<times> regex) list" where
  "patterns = [
     (''material'', material_re),
     (''finish'', finish_re),
     (''general_tolerance'', general_tolerance_re),
     (''surface_roughness'', surface_roughness_re),
     (''threads'', threads_re),
     (''diameters'', diameters_re),
     (''weld_notes'', weld_notes_re),
     (''standards'', standards_re)]"

section \<open>Regex pass\<close>

definition match_text :: "found \<Rightarrow> string" where
  \<comment> \<open>\<open>match[0] if isinstance(match, tuple) else match\<close>; a tuple has two entries or more\<close>
  "match_text m = (case m of Tuple xs \<Rightarrow> hd xs | Str x \<Rightarrow> x)"

definition add_match :: "string \<Rightarrow> found \<Rightarrow> (string \<rightharpoonup> string set) \<Rightarrow> (string \<rightharpoonup> string set)" where
  "add_match label m d =
     (if str_upper (match_text m) \<noteq> ''ING''
      then d(label \<mapsto> insert (str_strip (match_text m)) (case d label of None \<Rightarrow> {} | Some S \<Rightarrow> S))
      else d)"

definition regex_pass :: "string \<Rightarrow> (string \<rightharpoonup> string set)" where
  "regex_pass text_blob =
     fold (\<lambda>(label, pattern) d. fold (add_match label) (findall True pattern text_blob) d)
       patterns Map.empty"

text \<open>
  The regex pass in the words of the specification: for a field of the pattern library,
  the set of the distinct matched substrings of its pattern in the text, without those
  that read \<open>ING\<close> in any letter case; no entry when there is none.
\<close>

definition matched_substrings :: "string \<Rightarrow> string \<Rightarrow> string set option" where
  "matched_substrings text_blob label =
     (case map_of patterns label of
        None \<Rightarrow> None
      | Some pattern \<Rightarrow>
          (let ms = filter (\<lambda>w. str_upper w \<noteq> ''ING'') (map fst (finditer True pattern text_blob))
           in if ms = [] then None else Some (set ms)))"

section \<open>Floating point\<close>

text \<open>
  A Python \<open>float\<close> is an IEEE 754 binary64 number. The program only forms floats from
  unsigned decimal literals and divides or multiplies them by \<open>25.4\<close>, so the values are
  the non-negative finite ones and \<open>inf\<close>. \<open>binary64 x\<close> is the float nearest to the
  rational \<open>x \<ge> 0\<close>, ties to even, as \<open>float\<close>, the literal \<open>25.4\<close> and the
  arithmetic all round.
\<close>

datatype pyfloat = Finite rat | Infinity

definition pow2 :: "int \<Rightarrow> rat" where
  "pow2 e = (if 0 \<le> e then 2 ^ nat e else 1 / 2 ^ nat (- e))"

definition round_even :: "rat \<Rightarrow> int" where
  "round_even x =
     (let f = \<lfloor>x\<rfloor>; d = x - of_int f
      in if d < 1 / 2 then f else if 1 / 2 < d then f + 1 else if even f then f else f + 1)"

function bit_length :: "int \<Rightarrow> int" where
  "bit_length n = (if n \<le> 0 then 0 else 1 + bit_length (n div 2))"
  by pat_completeness auto
termination
  by (relation "measure nat") auto

declare bit_length.simps [simp del]

definition exponent :: "rat \<Rightarrow> int" where
  \<comment> \<open>for \<open>x > 0\<close>, the \<open>e\<close> with \<open>2 ^ e \<le> x < 2 ^ (e + 1)\<close>\<close>
  "exponent x =
     (if 1 \<le> x then bit_length \<lfloor>x\<rfloor> - 1
      else let k = bit_length \<lfloor>1 / x\<rfloor> in if x = pow2 (1 - k) then 1 - k else - k)"

definition binary64 :: "rat \<Rightarrow> pyfloat" where
  "binary64 x =
     (if x \<le> 0 then Finite 0
      else let q = max (exponent x - 52) (- 1074);
               v = of_int (round_even (x / pow2 q)) * pow2 q
           in if pow2 1024 \<le> v then Infinity else Finite v)"

definition fdiv :: "pyfloat \<Rightarrow> pyfloat \<Rightarrow> pyfloat" where
  \<comment> \<open>\<open>x / y\<close> for a finite \<open>y > 0\<close>\<close>
  "fdiv x y = (case (x, y) of (Finite a, Finite b) \<Rightarrow> binary64 (a / b) | _ \<Rightarrow> Infinity)"

definition fmul :: "pyfloat \<Rightarrow> pyfloat \<Rightarrow> pyfloat" where
  \<comment> \<open>\<open>x * y\<close> for a finite \<open>y > 0\<close>\<close>
  "fmul x y = (case (x, y) of (Finite a, Finite b) \<Rightarrow> binary64 (a * b) | _ \<Rightarrow> Infinity)"

text \<open>Comparison of a float with an integer constant of the program is exact.\<close>

definition f_le :: "pyfloat \<Rightarrow> int \<Rightarrow> bool" where
  "f_le x n = (case x of Finite a \<Rightarrow> a \<le> of_int n | Infinity \<Rightarrow> False)"

definition f_ge :: "pyfloat \<Rightarrow> int \<Rightarrow> bool" where
  "f_ge x n = (case x of Finite a \<Rightarrow> of_int n \<le> a | Infinity \<Rightarrow> True)"

definition f_gt :: "pyfloat \<Rightarrow> int \<Rightarrow> bool" where
  "f_gt x n = (case x of Finite a \<Rightarrow> of_int n < a | Infinity \<Rightarrow> True)"

definition digits_val :: "string \<Rightarrow> int" where
  "digits_val ds = foldl (\<lambda>n c. 10 * n + (int (code c) - 48)) 0 ds"

text \<open>
  \<open>float(t)\<close> for a text \<open>t\<close> of the form \<open>\d+(\.\d+)?\<close>: the decimal value, correctly
  rounded. The program converts the first group of a match of its size pattern and
  nothing else, and that group always has this form (\<open>size_matches_are_numbers\<close> below),
  so the \<open>ValueError\<close> of \<open>float\<close> cannot occur.
\<close>

definition decimal :: "string \<Rightarrow> rat" where
  "decimal t =
     (let i = takeWhile (\<lambda>c. c \<noteq> CHR ''.'') t;
          f = drop 1 (dropWhile (\<lambda>c. c \<noteq> CHR ''.'') t)
      in of_int (digits_val i) + of_int (digits_val f) / 10 ^ length f)"

definition py_float :: "string \<Rightarrow> pyfloat" where
  "py_float t = binary64 (decimal t)"

definition decimal_literal :: "string \<Rightarrow> bool" where
  \<comment> \<open>the text is of the form \<open>\d+(\.\d+)?\<close>\<close>
  "decimal_literal n =
     (let ds = takeWhile is_digit n; r = dropWhile is_digit n
      in ds \<noteq> [] \<and> (r = [] \<or> (hd r = CHR ''.'' \<and> tl r \<noteq> [] \<and> list_all is_digit (tl r))))"

definition f25_4 :: pyfloat where
  \<comment> \<open>the literal \<open>25.4\<close>\<close>
  "f25_4 = binary64 (127 / 5)"

section \<open>Classification criteria\<close>

definition size_re :: regex where
  \<comment> \<open>\<open>(\d+(?:\.\d+)?)\s*(mm|in|inch)?\<close>\<close>
  "size_re = seqs [
     Group 1 (Seq (Rep 1 Digit) (Opt (Seq (Item (Lit CHR ''.'')) (Rep 1 Digit)))),
     Rep 0 Space,
     Opt (Group 2 (alts [lit ''mm'', lit ''in'', lit ''inch'']))]"

definition unit_of :: "match \<Rightarrow> string" where
  \<comment> \<open>\<open>match.group(2) or "mm"\<close>\<close>
  "unit_of m = (case match_group m 2 of None \<Rightarrow> ''mm'' | Some u \<Rightarrow> if u = [] then ''mm'' else u)"

text \<open>
  The classifiers collect labels in a Python set and return \<open>list(classifications)\<close>,
  whose order is not specified, or \<open>None\<close> for the empty set: the model returns the set
  of the elements of that list.
\<close>

definition diameter_size :: "match \<Rightarrow> pyfloat" where
  "diameter_size m =
     (let sz = py_float (group_text m 1); unit = unit_of m
      in if str_lower unit \<in> set [''mm'', ''millimeter''] then fdiv sz f25_4 else sz)"

definition diameter_class :: "pyfloat \<Rightarrow> string option" where
  "diameter_class sz =
     (if f_ge sz 6 \<and> f_le sz 8 then Some ''Class A Pipe''
      else if f_gt sz 8 \<and> f_le sz 10 then Some ''Class B Pipe''
      else if f_gt sz 10 \<and> f_le sz 12 then Some ''Class C Pipe''
      else None)"

definition add_class :: "string option \<Rightarrow> string set \<Rightarrow> string set" where
  "add_class l S = (case l of None \<Rightarrow> S | Some x \<Rightarrow> insert x S)"

definition classify_diameter :: "string \<Rightarrow> string set option" where
  "classify_diameter v =
     (let classifications =
        fold (\<lambda>m. add_class (diameter_class (diameter_size m))) (finditer True size_re v) {}
      in if classifications = {} then None else Some classifications)"

definition type_re :: regex where
  \<comment> \<open>\<open>(Stud|Anchor|Hole|Bolt)\<close>\<close>
  "type_re = Group 1 (alts [lit ''Stud'', lit ''Anchor'', lit ''Hole'', lit ''Bolt''])"

definition thread_type :: "string \<Rightarrow> string" where
  "thread_type v =
     (case search True type_re v of None \<Rightarrow> ''unknown'' | Some m \<Rightarrow> str_lower (group_text m 1))"

text \<open>
  What the search for the type amounts to on the code points of the model: the first of
  the four words, read from left to right in the lower-cased text. (In a text with
  U+017F the search also finds a word written with it in place of \<open>s\<close>, and the
  duty type is then that lower-cased spelling, which is none of the four words.)
\<close>

fun first_keyword :: "string \<Rightarrow> string" where
  "first_keyword [] = ''unknown''"
| "first_keyword (c # cs) =
     (if prefix ''stud'' (c # cs) then ''stud''
      else if prefix ''anchor'' (c # cs) then ''anchor''
      else if prefix ''hole'' (c # cs) then ''hole''
      else if prefix ''bolt'' (c # cs) then ''bolt''
      else first_keyword cs)"

definition thread_size :: "match \<Rightarrow> pyfloat" where
  "thread_size m =
     (let sz = py_float (group_text m 1); unit = unit_of m
      in if unit \<in> set [''in'', ''inch''] then fmul sz f25_4 else sz)"

definition thread_class :: "string \<Rightarrow> pyfloat \<Rightarrow> string option" where
  "thread_class ty sz =
     (if ty = ''stud'' then
        (if f_le sz 20 then Some ''Light Duty Stud'' else Some ''Heavy Duty Stud'')
      else if ty = ''anchor'' then
        (if f_le sz 25 then Some ''Standard Anchor'' else Some ''Heavy Duty Anchor'')
      else if ty = ''hole'' then
        (if f_le sz 20 then Some ''Standard Hole'' else Some ''Large Hole'')
      else None)"

definition classify_thread :: "string \<Rightarrow> string set option" where
  "classify_thread v =
     (let ty = thread_type v;
          classifications =
            fold (\<lambda>m. add_class (thread_class ty (thread_size m)))
              (finditer False size_re v) {}
      in if classifications = {} then None else Some classifications)"

text \<open>
  Notions for the theorems about the two classifiers above; they are not part of the
  program. \<open>labels\<close> reads a result as a set (\<open>None\<close> is the empty one). \<open>cased ic\<close>
  is the text as the matcher compares it (lower-cased under \<open>re.I\<close>).
  \<open>continues n t\<close>: the number \<open>n\<close> would go on into the text \<open>t\<close> behind it.
  \<open>token ic n ws u t\<close>: in \<open>n @ ws @ u @ t\<close> the size pattern takes the number \<open>n\<close>,
  the white space \<open>ws\<close> and the unit \<open>u\<close> (\<open>mm\<close> or \<open>in\<close>; empty when no unit follows).
\<close>

definition labels :: "string set option \<Rightarrow> string set" where
  "labels r = (case r of None \<Rightarrow> {} | Some S \<Rightarrow> S)"

definition cased :: "bool \<Rightarrow> string \<Rightarrow> string" where
  "cased ic s = (if ic then str_lower s else s)"

definition continues :: "string \<Rightarrow> string \<Rightarrow> bool" where
  "continues n t =
     (case t of
        [] \<Rightarrow> False
      | c # cs \<Rightarrow> is_digit c \<or>
          (c = CHR ''.'' \<and> CHR ''.'' \<notin> set n \<and> (case cs of [] \<Rightarrow> False | d # _ \<Rightarrow> is_digit d)))"

definition token :: "bool \<Rightarrow> string \<Rightarrow> string \<Rightarrow> string \<Rightarrow> string \<Rightarrow> bool" where
  "token ic n ws u t \<longleftrightarrow>
     decimal_literal n \<and> list_all is_space ws \<and>
     (cased ic u = ''mm'' \<or> cased ic u = ''in'' \<or>
      (u = [] \<and> (t = [] \<or> \<not> is_space (hd t)) \<and>
       \<not> prefix ''mm'' (cased ic t) \<and> \<not> prefix ''in'' (cased ic t) \<and>
       (ws = [] \<longrightarrow> \<not> continues n t)))"

definition classify_material :: "string \<Rightarrow> string option" where
  "classify_material v =
     (let v = str_upper v in
      if str_in ''STAINLESS'' v \<or> str_in ''SS'' v then
        (if str_in ''304'' v then Some ''Standard Stainless''
         else if str_in ''316'' v then Some ''Marine Grade Stainless''
         else Some ''General Stainless'')
      else if str_in ''ALUMINUM'' v \<or> str_in ''AL'' v then
        (if str_in ''6061'' v then Some ''Aircraft Grade Aluminum''
         else Some ''General Aluminum'')
      else if str_in ''BRASS'' v then Some ''Decorative/Corrosion Resistant''
      else if str_in ''BRONZE'' v then Some ''High Strength/Corrosion Resistant''
      else if str_in ''PEEK'' v then Some ''High Performance Plastic''
      else None)"

definition CLASSIFICATION_COLORS :: "(string \<times> string) list" where
  "CLASSIFICATION_COLORS = [
     (''Class A Pipe'', ''#FF6B6B''),
     (''Class B Pipe'', ''#4ECDC4''),
     (''Class C Pipe'', ''#45B7D1''),
     (''Light Duty Stud'', ''#98D8AA''),
     (''Heavy Duty Stud'', ''#3C6255''),
     (''Standard Anchor'', ''#FFD93D''),
     (''Heavy Duty Anchor'', ''#FF8400''),
     (''Standard Hole'', ''#A8DF8E''),
     (''Large Hole'', ''#86A789''),
     (''Standard Stainless'', ''#B2B2B2''),
     (''Marine Grade Stainless'', ''#7D7C7C''),
     (''General Stainless'', ''#9B9B9B''),
     (''Aircraft Grade Aluminum'', ''#C0C0C0''),
     (''General Aluminum'', ''#D3D3D3''),
     (''Decorative/Corrosion Resistant'', ''#DAA520''),
     (''High Strength/Corrosion Resistant'', ''#CD7F32''),
     (''High Performance Plastic'', ''#E6E6FA'')]"

definition chip_color :: "string \<Rightarrow> string" where
  \<comment> \<open>\<open>CLASSIFICATION_COLORS.get(classification, "#f8f9fa")\<close>\<close>
  "chip_color l = (case map_of CLASSIFICATION_COLORS l of None \<Rightarrow> ''#f8f9fa'' | Some c \<Rightarrow> c)"

definition color_key :: "string \<Rightarrow> bool" where
  \<comment> \<open>\<open>l in CLASSIFICATION_COLORS\<close>\<close>
  "color_key l = (map_of CLASSIFICATION_COLORS l \<noteq> None)"

section \<open>Extraction orchestrator\<close>

text \<open>
  A model-backed call, \<open>json.loads(client.responses.create(...).output_text)\<close>, is a
  parameter: it gives the parsed document, or \<open>Inl e\<close> when the call or the parsing
  raises an exception whose text is \<open>e\<close>. \<open>llm_pass\<close> wraps the call in
  \<open>try ... except Exception\<close> and returns \<open>{"error": str(e)}\<close>; the merge call is made
  in the body of the script with no handler around it.
\<close>

datatype 'j pass_data = Parsed 'j | Error_object string

definition llm_pass :: "(string \<Rightarrow> string \<Rightarrow> string + 'j) \<Rightarrow> string \<Rightarrow> string \<Rightarrow> 'j pass_data" where
  "llm_pass call prompt_text name =
     (case call prompt_text name of Inl e \<Rightarrow> Error_object e | Inr j \<Rightarrow> Parsed j)"

text \<open>
  What the merge call is given: the two pass results and the regex sets. The run of the
  script either goes on with the merged fields or is ended by the exception.
\<close>

datatype 'j run = Merged 'j | Uncaught string

definition pipeline ::
  "(string \<Rightarrow> string \<Rightarrow> string + 'j) \<Rightarrow>
   ('j pass_data \<Rightarrow> 'j pass_data \<Rightarrow> (string \<rightharpoonup> string set) \<Rightarrow> string + 'j) \<Rightarrow>
   string \<Rightarrow> string \<Rightarrow> 'j run" where
  "pipeline call merge_call text_blob notes_blob =
     (let regex_extracted = regex_pass text_blob;
          notes_data = llm_pass call notes_blob ''notes_extraction'';
          doc_data = llm_pass call text_blob ''doc_extraction''
      in case merge_call doc_data notes_data regex_extracted of
           Inl e \<Rightarrow> Uncaught e
         | Inr merged_fields \<Rightarrow> Merged merged_fields)"

section \<open>Source locator\<close>

datatype 'n word = Word (w_text: string) (w_x0: 'n) (w_top: 'n) (w_x1: 'n) (w_bottom: 'n)

datatype 'n bbox = Bbox (x0: 'n) (y0: 'n) (x1: 'n) (y1: 'n)

definition box_of :: "'n word \<Rightarrow> 'n bbox" where
  "box_of w = Bbox (w_x0 w) (w_top w) (w_x1 w) (w_bottom w)"

definition part_in :: "'n word \<Rightarrow> string \<Rightarrow> bool" where
  \<comment> \<open>\<open>part.lower() in word["text"].lower()\<close>\<close>
  "part_in w part = str_in (str_lower part) (str_lower (w_text w))"

definition score :: "string \<Rightarrow> 'n word \<Rightarrow> nat" where
  "score t w = length (filter (part_in w) (str_split t))"

fun fuzzy :: "string \<Rightarrow> 'n word list \<Rightarrow> nat \<Rightarrow> 'n word option \<Rightarrow> 'n word option" where
  "fuzzy t [] best_score best_match = best_match"
| "fuzzy t (w # ws) best_score best_match =
     (if list_ex (part_in w) (str_split t) then
        (if score t w > best_score then fuzzy t ws (score t w) (Some w)
         else fuzzy t ws best_score best_match)
      else fuzzy t ws best_score best_match)"

definition find_text_locations :: "'n word list \<Rightarrow> string \<Rightarrow> string \<Rightarrow> 'n bbox option" where
  "find_text_locations words t context =
     (case find (\<lambda>w. part_in w t) words of
        Some w \<Rightarrow> Some (box_of w)
      | None \<Rightarrow>
          (let best_match = (if context \<noteq> [] then fuzzy t words 0 None else None)
           in case best_match of Some w \<Rightarrow> Some (box_of w) | None \<Rightarrow> None))"

text \<open>
  The fallback pass in the words of the specification: the highest score over the page
  tokens, and the first token that has it, if that score is above zero.
\<close>

definition max_score :: "string \<Rightarrow> 'n word list \<Rightarrow> nat" where
  "max_score t ws = fold max (map (score t) ws) 0"

definition first_highest :: "string \<Rightarrow> 'n word list \<Rightarrow> 'n word option" where
  "first_highest t ws =
     (if max_score t ws = 0 then None else find (\<lambda>w. score t w = max_score t ws) ws)"

section \<open>Document chat session\<close>

text \<open>
  Streamlit runs the script from the top at every interaction and keeps
  \<open>st.session_state\<close> between the runs. A query engine answers a prompt or raises
  (\<open>Inl\<close>); indexing the uploaded files gives an engine or raises. What a run shows and
  calls is recorded as a list of events.
\<close>

type_synonym engine = "string \<Rightarrow> string + string"

record session =
  messages :: "(string \<times> string) list"
  query_engine :: "engine option"
  question_count :: nat

datatype upload = No_files | Indexed engine | Index_raises string

datatype event =
    Success
  | Show string string
  | Query string
  | Limit_error
  | Upload_first_error
  | Exception string

definition initial :: session where
  "initial = \<lparr>messages = [], query_engine = None, question_count = 0\<rparr>"

definition on_prompt :: "session \<Rightarrow> string \<Rightarrow> session \<times> event list" where
  "on_prompt s prompt =
     (if question_count s \<ge> 15 then (s, [Limit_error])
      else
        let s1 = s\<lparr>messages := messages s @ [(''user'', prompt)]\<rparr>
        in case query_engine s1 of
             Some engine \<Rightarrow>
               (case engine prompt of
                  Inl e \<Rightarrow> (s1, [Show ''user'' prompt, Query prompt, Exception e])
                | Inr response \<Rightarrow>
                    (s1\<lparr>messages := messages s1 @ [(''assistant'', response)],
                        question_count := question_count s1 + 1\<rparr>,
                     [Show ''user'' prompt, Query prompt, Show ''assistant'' response]))
           | None \<Rightarrow> (s1, [Show ''user'' prompt, Upload_first_error]))"

text \<open>
  One run: the upload is indexed when no engine is stored yet, the stored messages are
  shown, and a submitted prompt (a non-empty string) is handled.
\<close>

definition run_script :: "session \<Rightarrow> upload \<Rightarrow> string option \<Rightarrow> session \<times> event list" where
  "run_script s up prompt =
     (let shown = map (\<lambda>(role, content). Show role content) in
      case (if query_engine s = None then up else No_files) of
        Index_raises e \<Rightarrow> (s, [Exception e])
      | u \<Rightarrow>
         (let s1 = (case u of Indexed e \<Rightarrow> s\<lparr>query_engine := Some e\<rparr> | _ \<Rightarrow> s);
              ev1 = (case u of Indexed e \<Rightarrow> [Success] | _ \<Rightarrow> [])
          in case prompt of
               None \<Rightarrow> (s1, ev1 @ shown (messages s1))
             | Some p \<Rightarrow>
                 if p = [] then (s1, ev1 @ shown (messages s1))
                 else let (s2, ev2) = on_prompt s1 p in (s2, ev1 @ shown (messages s1) @ ev2)))"

inductive reachable :: "session \<Rightarrow> bool" where
  start: "reachable initial"
| run: "reachable s \<Longrightarrow> reachable (fst (run_script s up prompt))"

definition ask :: "engine \<Rightarrow> string \<Rightarrow> session \<Rightarrow> session" where
  \<comment> \<open>a run in which the prompt \<open>p\<close> is submitted, with the files uploaded\<close>
  "ask e p s = fst (run_script s (Indexed e) (Some p))"

text \<open>What every run keeps: the cap, and an engine once a question was answered.\<close>

definition session_inv :: "session \<Rightarrow> bool" where
  "session_inv s = (question_count s \<le> 15 \<and> (0 < question_count s \<longrightarrow> query_engine s \<noteq> None))"

section \<open>Facts about text\<close>

lemma str_in_sublist: "str_in sub s \<longleftrightarrow> sublist sub s"
  by (induction s) (auto simp: sublist_Cons_right)

lemma str_in_trans: "str_in a b \<Longrightarrow> str_in b c \<Longrightarrow> str_in a c"
  unfolding str_in_sublist by (rule sublist_order.order.trans)

lemma str_upper_append: "str_upper (a @ b) = str_upper a @ str_upper b"
  by (simp add: str_upper_def)

lemma str_in_upper_fixed:
  assumes "str_upper k = k" and "str_in k v"
  shows "str_in k (str_upper v)"
proof -
  from assms(2) obtain pre post where "v = pre @ k @ post"
    unfolding str_in_sublist sublist_def by blast
  then have "str_upper v = str_upper pre @ k @ str_upper post"
    by (simp add: str_upper_append assms(1))
  then show ?thesis
    unfolding str_in_sublist sublist_def by blast
qed

lemma code_char_of: "n < 256 \<Longrightarrow> code (char_of n) = n"
  by (simp add: code_def)

lemma code_less: "code c < 256"
  by (simp add: code_def)

lemma code_inj: "code c = code d \<Longrightarrow> c = d"
  by (simp add: code_def)

lemma inert_upper_char:
  assumes "inert d" and "d \<in> set (upper_char c)"
  shows "upper_char c = [d]"
proof (cases "code c = 223")
  case True
  with assms show ?thesis by (auto simp: upper_char_def inert_def code_def)
next
  case False
  show ?thesis
  proof (cases "is_lower c")
    case True
    then have "code c - 32 < 256" "65 \<le> code c - 32"
      using code_less [of c] by (auto simp: is_lower_def Let_def)
    with assms False True show ?thesis
      by (auto simp: upper_char_def upper1_def inert_def code_char_of)
  next
    case F2: False
    with assms False show ?thesis by (auto simp: upper_char_def upper1_def)
  qed
qed

lemma inert_upper_char_same:
  assumes "inert d" and "d \<in> set (upper_char c)"
  shows "c = d"
proof (cases "code c = 223")
  case True
  with assms show ?thesis by (auto simp: upper_char_def inert_def code_def)
next
  case False
  show ?thesis
  proof (cases "is_lower c")
    case True
    then have "code c - 32 < 256" "65 \<le> code c - 32"
      using code_less [of c] by (auto simp: is_lower_def Let_def)
    with assms False True show ?thesis
      by (auto simp: upper_char_def upper1_def inert_def code_char_of)
  next
    case F2: False
    with assms False show ?thesis by (auto simp: upper_char_def upper1_def)
  qed
qed

lemma upper_char_nonempty: "upper_char c \<noteq> []"
  by (simp add: upper_char_def)

lemma prefix_upper_inert:
  "\<forall>d\<in>set sub. inert d \<Longrightarrow> prefix sub (str_upper v) \<Longrightarrow> prefix sub v"
proof (induction sub arbitrary: v)
  case Nil
  then show ?case by simp
next
  case (Cons d ds)
  show ?case
  proof (cases v)
    case Nil
    with Cons.prems show ?thesis by (simp add: str_upper_def)
  next
    case (Cons c cs)
    obtain u us where u: "upper_char c = u # us"
      using upper_char_nonempty [of c] by (cases "upper_char c") auto
    from Cons.prems(2) Cons have p: "prefix (d # ds) ((u # us) @ str_upper cs)"
      by (simp add: str_upper_def u)
    then have "u = d" by simp
    then have "d \<in> set (upper_char c)" by (simp add: u)
    with Cons.prems(1) have e: "upper_char c = [d]" "c = d"
      using inert_upper_char inert_upper_char_same by auto
    with p u have "prefix ds (str_upper cs)" by simp
    with Cons.IH Cons.prems(1) have "prefix ds cs" by simp
    with e Cons show ?thesis by simp
  qed
qed

lemma sublist_upper_inert:
  "sub \<noteq> [] \<Longrightarrow> \<forall>d\<in>set sub. inert d \<Longrightarrow> str_in sub (str_upper v) \<Longrightarrow> str_in sub v"
proof (induction v)
  case Nil
  then show ?case by (simp add: str_upper_def)
next
  case (Cons c cs)
  have up: "str_upper (c # cs) = upper_char c @ str_upper cs"
    by (simp add: str_upper_def)
  show ?case
  proof (cases "prefix sub (str_upper (c # cs))")
    case True
    with Cons.prems have "prefix sub (c # cs)" using prefix_upper_inert by blast
    then show ?thesis by simp
  next
    case False
    show ?thesis
    proof (cases "code c = 223")
      case c: False
      then have "str_upper (c # cs) = upper1 c # str_upper cs"
        by (simp add: up upper_char_def)
      with False Cons.prems(3) have "str_in sub (str_upper cs)" by simp
      with Cons show ?thesis by simp
    next
      case c: True
      then have u: "str_upper (c # cs) = CHR ''S'' # CHR ''S'' # str_upper cs"
        by (simp add: up upper_char_def)
      have "\<not> prefix sub (CHR ''S'' # str_upper cs)"
      proof
        assume "prefix sub (CHR ''S'' # str_upper cs)"
        with Cons.prems(1) have "hd sub = CHR ''S''" by (cases sub) auto
        moreover from Cons.prems(1,2) have "inert (hd sub)" by (cases sub) auto
        ultimately show False by (simp add: inert_def code_def)
      qed
      with False Cons.prems(3) u have "str_in sub (str_upper cs)" by simp
      with Cons show ?thesis by simp
    qed
  qed
qed


section \<open>The material classifier\<close>

lemma brass_has_ss: "str_in ''BRASS'' u \<Longrightarrow> str_in ''SS'' u"
  by (rule str_in_trans [of _ "''BRASS''"]) simp_all

lemma classify_material_never_brass:
  "classify_material v \<noteq> Some ''Decorative/Corrosion Resistant''"
  using brass_has_ss [of "str_upper v"] by (simp add: classify_material_def Let_def)

text \<open>
  C3 (the code departs from the claim). The test for \<open>"SS"\<close> comes first and every
  text with \<open>BRASS\<close> in it has \<open>SS\<close> in it, so the brass branch is never reached
  (\<open>classify_material_never_brass\<close>): \<open>classify_material("Brass")\<close> is
  \<open>"General Stainless"\<close>, not \<open>"Decorative/Corrosion Resistant"\<close>.
\<close>

theorem classify_material_Brass: "classify_material ''Brass'' = Some ''General Stainless''"
  by code_simp

text \<open>
  C5, as stated, fails: the grade \<open>304\<close> is tested before \<open>316\<close>, so a text with
  \<open>STAINLESS\<close>, \<open>316\<close> and \<open>304\<close> in it is labelled \<open>"Standard Stainless"\<close>.
\<close>

theorem stainless_316_counterexample:
  "str_in ''STAINLESS'' ''STAINLESS 304/316'' \<and> str_in ''316'' ''STAINLESS 304/316'' \<and>
   classify_material ''STAINLESS 304/316'' = Some ''Standard Stainless''"
  by code_simp

text \<open>
  C5, amended: every text that contains \<open>STAINLESS\<close> and \<open>316\<close> and does not contain
  \<open>304\<close> is labelled exactly \<open>"Marine Grade Stainless"\<close>.
\<close>

theorem stainless_316:
  assumes "str_in ''STAINLESS'' v" and "str_in ''316'' v" and "\<not> str_in ''304'' v"
  shows "classify_material v = Some ''Marine Grade Stainless''"
proof -
  have 1: "str_in ''STAINLESS'' (str_upper v)"
    by (rule str_in_upper_fixed [OF _ assms(1)]) code_simp
  have 2: "str_in ''316'' (str_upper v)"
    by (rule str_in_upper_fixed [OF _ assms(2)]) code_simp
  have 3: "\<not> str_in ''304'' (str_upper v)"
    using sublist_upper_inert [of "''304''" v] assms(3) by (auto simp: inert_def code_def)
  from 1 2 3 show ?thesis by (simp add: classify_material_def Let_def)
qed

theorem stainless_316_witness:
  "str_in ''STAINLESS'' ''STAINLESS 316L'' \<and> str_in ''316'' ''STAINLESS 316L'' \<and>
   \<not> str_in ''304'' ''STAINLESS 316L'' \<and>
   classify_material ''STAINLESS 316L'' = Some ''Marine Grade Stainless''"
  using stainless_316 [of "''STAINLESS 316L''"] by simp

section \<open>Evaluating the rounding\<close>

lemma bit_length_0: "bit_length 0 = 0"
  by (simp add: bit_length.simps)

lemma bit_length_1: "bit_length 1 = 1"
  by (subst bit_length.simps) (simp add: bit_length_0)

lemma bit_length_numeral: "bit_length (numeral n) = 1 + bit_length (numeral n div 2)"
  by (subst bit_length.simps) simp

lemma floor_rat_numeral: "\<lfloor>numeral a / numeral b :: rat\<rfloor> = numeral a div numeral b"
  using floor_divide_of_int_eq [of "numeral a" "numeral b", where ?'a = rat] by simp

lemma floor_rat_numeral1: "\<lfloor>1 / numeral b :: rat\<rfloor> = 1 div numeral b"
  using floor_divide_of_int_eq [of 1 "numeral b", where ?'a = rat] by simp

lemmas float_eval =
  binary64_def exponent_def pow2_def round_even_def Let_def
  bit_length_0 bit_length_1 bit_length_numeral floor_rat_numeral floor_rat_numeral1

lemma f25_4_value: "f25_4 = Finite (3574732204225331 / 140737488355328)"
  by (simp add: f25_4_def float_eval)

section \<open>Facts about the matcher\<close>

lemma rep_suffix:
  "(p', s', g') \<in> set (rep ic k it (p, s, g)) \<Longrightarrow> \<exists>t. s = t @ s'"
proof (induction s arbitrary: p k)
  case Nil
  then show ?case by (auto split: if_splits)
next
  case (Cons c cs)
  from Cons.prems have "(p', s', g') \<in> set (rep ic (k - 1) it (Some c, cs, g)) \<or> s' = c # cs"
    by (auto split: if_splits)
  then show ?case
  proof
    assume "(p', s', g') \<in> set (rep ic (k - 1) it (Some c, cs, g))"
    from Cons.IH [OF this] obtain t where "cs = t @ s'" ..
    then have "c # cs = (c # t) @ s'" by simp
    then show ?thesis ..
  next
    assume "s' = c # cs"
    then have "c # cs = [] @ s'" by simp
    then show ?thesis ..
  qed
qed

lemma step_suffix:
  "(p', s', g') \<in> set (step ic r (p, s, g)) \<Longrightarrow> \<exists>t. s = t @ s'"
proof (induction r arbitrary: p s g p' s' g')
  case (Item it)
  then show ?case by (auto split: list.splits if_splits)
next
  case Bound
  then show ?case by (auto split: if_splits)
next
  case Eps
  then show ?case by auto
next
  case (Seq r1 r2)
  from Seq.prems obtain p1 s1 g1 where
    1: "(p1, s1, g1) \<in> set (step ic r1 (p, s, g))" and 2: "(p', s', g') \<in> set (step ic r2 (p1, s1, g1))"
    by auto
  from Seq.IH(1) [OF 1] obtain t1 where "s = t1 @ s1" ..
  moreover from Seq.IH(2) [OF 2] obtain t2 where "s1 = t2 @ s'" ..
  ultimately have "s = (t1 @ t2) @ s'" by simp
  then show ?case ..
next
  case (Alt r1 r2)
  then show ?case by auto
next
  case (Opt r)
  then show ?case by auto
next
  case (Rep k it)
  then show ?case by (auto dest: rep_suffix)
next
  case (Group n r)
  then show ?case by auto
qed

lemma step_length: "(p', s', g') \<in> set (step ic r (p, s, g)) \<Longrightarrow> length s' \<le> length s"
  by (auto dest: step_suffix)

text \<open>A property of every way the pattern can match is a property of every match found.\<close>

lemma scan_forall:
  "(\<forall>p s p' s' g'. (p', s', g') \<in> set (step ic r (p, s, [])) \<longrightarrow> Q (take (length s - length s') s, g'))
   \<longrightarrow> (\<forall>m\<in>set (scan ic r adv p s). Q m)"
proof (induction ic r adv p s rule: scan.induct)
  case (1 ic r adv p s)
  show ?case
  proof
    assume Q: "\<forall>p s p' s' g'. (p', s', g') \<in> set (step ic r (p, s, [])) \<longrightarrow> Q (take (length s - length s') s, g')"
    show "\<forall>m\<in>set (scan ic r adv p s). Q m"
    proof (cases "filter (\<lambda>(p', s', g'). \<not> adv \<or> length s' < length s) (step ic r (p, s, []))")
      case Nil
      show ?thesis
      proof (cases s)
        case Nil
        with \<open>filter _ _ = []\<close> show ?thesis by (subst scan.simps) simp
      next
        case (Cons c cs)
        from 1(1) [OF \<open>filter _ _ = []\<close> Cons] Q
        have "\<forall>m\<in>set (scan ic r False (Some c) cs). Q m" by blast
        moreover have "scan ic r adv p s = scan ic r False (Some c) cs"
          using \<open>filter _ _ = []\<close> Cons by (subst scan.simps) simp
        ultimately show ?thesis by simp
      qed
    next
      case (Cons st sts)
      obtain p' s' g' where st: "st = (p', s', g')" by (cases st) auto
      have "st \<in> set (filter (\<lambda>(p', s', g'). \<not> adv \<or> length s' < length s) (step ic r (p, s, [])))"
        unfolding Cons by simp
      then have "(p', s', g') \<in> set (step ic r (p, s, []))" by (simp add: st)
      with Q have "Q (take (length s - length s') s, g')" by blast
      then show ?thesis
        using 1(2,3) Q Cons st by (subst scan.simps) auto
    qed
  qed
qed

lemma finditer_forall:
  assumes "\<And>p s p' s' g'. (p', s', g') \<in> set (step ic r (p, s, [])) \<Longrightarrow> Q (take (length s - length s') s, g')"
  shows "\<forall>m\<in>set (finditer ic r s). Q m"
  using scan_forall [of ic r Q False None s] assms by (auto simp: finditer_def)

lemma match_text_findall:
  assumes "0 < groups_of r"
  shows "map match_text (findall ic r s) = map (\<lambda>m. group_text m 1) (finditer ic r s)"
proof -
  have "hd (map (group_text m) [1 ..< Suc (groups_of r)]) = group_text m 1" for m
    using assms by (simp add: hd_map del: upt_Suc)
  with assms show ?thesis by (simp add: findall_def match_text_def del: upt_Suc)
qed

lemma step_group1_whole:
  assumes "(p', s', g') \<in> set (step ic (seqs [Bound, Group 1 r, Bound]) (p, s, g))"
  shows "map_of g' 1 = Some (take (length s - length s') s)"
  using assms by (auto split: if_splits)

lemma finditer_group1_whole:
  "\<forall>m\<in>set (finditer ic (seqs [Bound, Group 1 r, Bound]) s). group_text m 1 = fst m"
  by (rule finditer_forall) (auto simp: group_text_def match_group_def dest!: step_group1_whole)

subsection \<open>Literals and the first match\<close>

lemma prefix_take: "prefix k l \<Longrightarrow> take (length k) l = k"
  by (auto simp: prefix_def)

lemma lower_take: "str_lower (take n s) = take n (str_lower s)"
  by (simp add: str_lower_def take_map)

lemma step_Item_Seq:
  "step ic (Seq (Item it) r) (p, s, g) =
     (case s of [] \<Rightarrow> [] | c # cs \<Rightarrow> if accepts ic it c then step ic r (Some c, cs, g) else [])"
  by (simp split: list.splits)

lemma step_lit:
  "k \<noteq> [] \<Longrightarrow>
   step True (lit k) (p, s, g) =
     (if prefix (str_lower k) (str_lower s)
      then [(Some (s ! (length k - 1)), drop (length k) s, g)] else [])"
proof (induction k arbitrary: p s rule: lit.induct)
  case 1
  then show ?case by simp
next
  case (2 c)
  show ?case by (cases s) (auto simp: str_lower_def)
next
  case (3 c c' cs)
  have ih: "step True (lit (c' # cs)) (p', s', g) =
     (if prefix (str_lower (c' # cs)) (str_lower s')
      then [(Some (s' ! (length (c' # cs) - 1)), drop (length (c' # cs)) s', g)] else [])" for p' s'
    by (rule 3) simp
  show ?case
  proof (cases s)
    case Nil
    then show ?thesis by (simp add: str_lower_def)
  next
    case (Cons x xs)
    have "step True (lit (c # c' # cs)) (p, x # xs, g) =
            (if lower_char x = lower_char c then step True (lit (c' # cs)) (Some x, xs, g) else [])"
      by simp
    also have "\<dots> = (if prefix (str_lower (c # c' # cs)) (str_lower (x # xs))
      then [(Some ((x # xs) ! (length (c # c' # cs) - 1)), drop (length (c # c' # cs)) (x # xs), g)] else [])"
      by (simp only: ih) (auto simp: str_lower_def)
    finally show ?thesis by (simp only: Cons)
  qed
qed

lemma scan_first:
  "scan ic r False p s =
     (case step ic r (p, s, []) of
        (p', s', g') # _ \<Rightarrow>
          (take (length s - length s') s, g') #
          (if length s' < length s then scan ic r False p' s' else scan ic r True p s)
      | [] \<Rightarrow> (case s of [] \<Rightarrow> [] | c # cs \<Rightarrow> scan ic r False (Some c) cs))"
  by (subst scan.simps) (simp split: list.splits)

subsection \<open>The sets of the regex pass\<close>

lemma fold_add_match_other:
  "l \<noteq> label \<Longrightarrow> fold (add_match label) fs d l = d l"
  by (induction fs arbitrary: d) (auto simp: add_match_def)

lemma fold_add_match_same:
  "fold (add_match label) fs d label =
     (let xs = map str_strip (filter (\<lambda>w. str_upper w \<noteq> ''ING'') (map match_text fs))
      in if xs = [] then d label else Some (set xs \<union> (case d label of None \<Rightarrow> {} | Some S \<Rightarrow> S)))"
proof (induction fs arbitrary: d)
  case Nil
  then show ?case by simp
next
  case (Cons f fs)
  show ?case
    by (simp add: Cons.IH [of "add_match label f d"] Let_def)
       (auto simp: add_match_def split: option.splits)
qed

lemma regex_pass_field:
  assumes "map_of patterns label = Some pattern"
  shows "regex_pass text_blob label =
     (let xs = map str_strip (filter (\<lambda>w. str_upper w \<noteq> ''ING'') (map match_text (findall True pattern text_blob)))
      in if xs = [] then None else Some (set xs))"
  using assms
  by (auto simp: patterns_def regex_pass_def fold_add_match_other fold_add_match_same Let_def
      split: if_splits)

section \<open>The size pattern\<close>

lemma first_way_Seq:
  assumes "first_way ic r1 st = Some x" and "first_way ic r2 x = Some y"
  shows "first_way ic (Seq r1 r2) st = Some y"
  using assms by (auto simp: first_way_def split: list.splits)

lemma first_way_Opt:
  "first_way ic (Opt r) st = (case first_way ic r st of None \<Rightarrow> Some st | Some x \<Rightarrow> Some x)"
  by (auto simp: first_way_def split: list.splits)

lemma first_way_Group:
  assumes "first_way ic r (p, s, g) = Some (p', s', g')"
  shows "first_way ic (Group n r) (p, s, g) = Some (p', s', (n, take (length s - length s') s) # g')"
  using assms by (auto simp: first_way_def split: list.splits)

lemma first_way_Alt:
  assumes "first_way ic r1 st = Some x"
  shows "first_way ic (Alt r1 r2) st = Some x"
  using assms by (auto simp: first_way_def split: list.splits)

lemma first_way_Rep:
  assumes "\<forall>c\<in>set ds. accepts ic it c" and "t = [] \<or> \<not> accepts ic it (hd t)" and "k \<le> length ds"
  shows "\<exists>p'. first_way ic (Rep k it) (p, ds @ t, g) = Some (p', t, g)"
  using assms
proof (induction ds arbitrary: p k)
  case Nil
  then show ?case by (cases t) (auto simp: first_way_def)
next
  case (Cons d ds)
  from Cons.prems have "\<exists>p'. first_way ic (Rep (k - 1) it) (Some d, ds @ t, g) = Some (p', t, g)"
    by (intro Cons.IH) auto
  then obtain p' xs where "rep ic (k - 1) it (Some d, ds @ t, g) = (p', t, g) # xs"
    by (auto simp: first_way_def split: list.splits)
  with Cons.prems(1) show ?case by (auto simp: first_way_def)
qed

lemma first_way_Rep_none:
  assumes "t = [] \<or> \<not> accepts ic it (hd t)"
  shows "step ic (Rep (Suc k) it) (p, t, g) = []"
  using assms by (cases t) auto

lemma lower_char_inert:
  assumes "inert d"
  shows "lower_char d = d" and "(lower_char c = d) = (c = d)"
proof -
  from assms show "lower_char d = d"
    by (simp add: lower_char_def is_upper_def inert_def)
  show "(lower_char c = d) = (c = d)"
  proof (cases "is_upper c")
    case True
    then have b: "code c + 32 < 256" "65 \<le> code c"
      by (auto simp: is_upper_def Let_def)
    then have "code (lower_char c) = code c + 32"
      using True by (simp add: lower_char_def code_char_of)
    with b assms have "lower_char c \<noteq> d" "c \<noteq> d"
      by (auto simp: inert_def)
    then show ?thesis by simp
  next
    case False
    then show ?thesis by (simp add: lower_char_def)
  qed
qed

lemma accepts_dot: "accepts ic (Lit CHR ''.'') c = (c = CHR ''.'')"
proof -
  have i: "inert CHR ''.''" by code_simp
  show ?thesis
    using lower_char_inert(1) [OF i] lower_char_inert(2) [OF i, of c] by simp
qed

text \<open>A decimal literal: digits, and possibly a point and digits.\<close>

lemma first_way_None: "step ic r st = [] \<Longrightarrow> first_way ic r st = None"
  by (simp add: first_way_def)

lemma first_way_digits:
  assumes "ds \<noteq> []" and "\<forall>c\<in>set ds. is_digit c" and "t = [] \<or> \<not> is_digit (hd t)"
  shows "\<exists>p'. first_way ic (Rep 1 Digit) (p, ds @ t, g) = Some (p', t, g)"
proof (rule first_way_Rep)
  show "\<forall>c\<in>set ds. accepts ic Digit c" using assms(2) by simp
  show "t = [] \<or> \<not> accepts ic Digit (hd t)" using assms(3) by simp
  show "1 \<le> length ds" using assms(1) by (cases ds) simp_all
qed

lemma decimal_literal_form:
  assumes "decimal_literal n"
  shows "\<exists>ds. ds \<noteq> [] \<and> (\<forall>c\<in>set ds. is_digit c) \<and>
           (n = ds \<or> (\<exists>fs. fs \<noteq> [] \<and> (\<forall>c\<in>set fs. is_digit c) \<and> n = ds @ ''.'' @ fs))"
proof -
  let ?ds = "takeWhile is_digit n" and ?r = "dropWhile is_digit n"
  have n: "n = ?ds @ ?r" by simp
  have d: "\<forall>c\<in>set ?ds. is_digit c" by (auto dest: set_takeWhileD)
  from assms have ne: "?ds \<noteq> []" and
    r: "?r = [] \<or> (hd ?r = CHR ''.'' \<and> tl ?r \<noteq> [] \<and> list_all is_digit (tl ?r))"
    by (simp_all add: decimal_literal_def Let_def)
  from r show ?thesis
  proof
    assume "?r = []"
    with n have "n = ?ds" by (metis append_Nil2)
    with ne d show ?thesis by blast
  next
    assume a: "hd ?r = CHR ''.'' \<and> tl ?r \<noteq> [] \<and> list_all is_digit (tl ?r)"
    then have "?r \<noteq> []" by (metis list.sel(2))
    with a have "?r = ''.'' @ tl ?r" by (cases ?r) auto
    with n have "n = ?ds @ ''.'' @ tl ?r" by metis
    moreover from a have "tl ?r \<noteq> []" "\<forall>c\<in>set (tl ?r). is_digit c"
      by (auto simp: list_all_iff)
    ultimately show ?thesis using ne d by blast
  qed
qed

lemma code_lower_char: "code (lower_char c) = (if is_upper c then code c + 32 else code c)"
proof (cases "is_upper c")
  case True
  then have "code c + 32 < 256" by (auto simp: is_upper_def Let_def)
  with True show ?thesis by (simp add: lower_char_def code_char_of)
next
  case False
  then show ?thesis by (simp add: lower_char_def)
qed

lemma code_simps: "code CHR ''.'' = 46" "code CHR ''m'' = 109" "code CHR ''i'' = 105"
  by code_simp+

lemma space_not_number: "is_space c \<Longrightarrow> \<not> is_digit c \<and> c \<noteq> CHR ''.''"
  using code_simps(1) by (auto simp: is_space_def is_digit_def Let_def)

lemma lower_m_not_number:
  assumes "lower_char c = CHR ''m''"
  shows "\<not> is_digit c \<and> c \<noteq> CHR ''.'' \<and> \<not> is_space c"
proof -
  from assms have "code (lower_char c) = 109" by (simp add: code_simps)
  then have "code c = 77 \<or> code c = 109"
    by (auto simp: code_lower_char split: if_splits)
  then show ?thesis
    using code_simps(1) by (auto simp: is_space_def is_digit_def Let_def)
qed

lemma first_way_spaces:
  assumes "\<forall>c\<in>set ws. is_space c" and "t = [] \<or> \<not> is_space (hd t)"
  shows "\<exists>p'. first_way ic (Rep 0 Space) (p, ws @ t, g) = Some (p', t, g)"
proof (rule first_way_Rep)
  show "\<forall>c\<in>set ws. accepts ic Space c" using assms(1) by simp
  show "t = [] \<or> \<not> accepts ic Space (hd t)" using assms(2) by simp
  show "0 \<le> length ws" by simp
qed

lemma lower_mm: "str_lower ''mm'' = ''mm''" "str_lower ''in'' = ''in''" "str_lower ''inch'' = ''inch''"
  by code_simp+

lemma str_lower_append: "str_lower (a @ b) = str_lower a @ str_lower b"
  by (simp add: str_lower_def)

lemma length_str_lower: "length (str_lower s) = length s"
  by (simp add: str_lower_def)

lemma size_re_unfold:
  "size_re = Seq (Group 1 (Seq (Rep 1 Digit) (Opt (Seq (Item (Lit CHR ''.'')) (Rep 1 Digit)))))
               (Seq (Rep 0 Space) (Opt (Group 2 (alts [lit ''mm'', lit ''in'', lit ''inch'']))))"
  by (simp add: size_re_def)

lemma step_size_nondigit:
  "s = [] \<or> \<not> is_digit (hd s) \<Longrightarrow> step ic size_re (p, s, []) = []"
  by (cases s) (simp_all add: size_re_unfold del: lit.simps alts.simps)

lemma scan_size_nondigits:
  "\<forall>c\<in>set s. \<not> is_digit c \<Longrightarrow> scan ic size_re False p s = []"
proof (induction s arbitrary: p)
  case Nil
  show ?case by (subst scan_first) (simp add: step_size_nondigit del: step.simps)
next
  case (Cons c cs)
  then show ?case by (subst scan_first) (simp add: step_size_nondigit del: step.simps)
qed

lemma scan_at_match:
  assumes "first_way ic r (p, m @ s', []) = Some (p', s', g')" and "m \<noteq> []"
  shows "scan ic r False p (m @ s') = (m, g') # scan ic r False p' s'"
  using assms by (subst scan_first) (auto simp: first_way_def split: list.splits)

lemma decimal_literal_nonempty: "decimal_literal n \<Longrightarrow> n \<noteq> []"
  by (auto simp: decimal_literal_def Let_def)

subsection \<open>The numbers that are converted\<close>

lemma rep_consumed:
  "(p', s', g') \<in> set (rep ic k it (p, s, g)) \<Longrightarrow>
   \<exists>t. s = t @ s' \<and> (\<forall>c\<in>set t. accepts ic it c) \<and> k \<le> length t \<and> g' = g"
proof (induction s arbitrary: p k)
  case Nil
  then show ?case by (auto split: if_splits)
next
  case (Cons c cs)
  from Cons.prems have
    "(accepts ic it c \<and> (p', s', g') \<in> set (rep ic (k - 1) it (Some c, cs, g))) \<or>
     (k = 0 \<and> s' = c # cs \<and> g' = g)"
    by (auto split: if_splits)
  then show ?case
  proof
    assume a: "accepts ic it c \<and> (p', s', g') \<in> set (rep ic (k - 1) it (Some c, cs, g))"
    with Cons.IH obtain t where "cs = t @ s'" "\<forall>c\<in>set t. accepts ic it c" "k - 1 \<le> length t" "g' = g"
      by blast
    with a have "c # cs = (c # t) @ s' \<and> (\<forall>x\<in>set (c # t). accepts ic it x) \<and> k \<le> length (c # t) \<and> g' = g"
      by auto
    then show ?thesis by blast
  next
    assume "k = 0 \<and> s' = c # cs \<and> g' = g"
    then have "c # cs = [] @ s' \<and> (\<forall>x\<in>set []. accepts ic it x) \<and> k \<le> length ([] :: string) \<and> g' = g"
      by simp
    then show ?thesis by blast
  qed
qed

lemma decimal_literal_digits:
  assumes "ds \<noteq> []" and "\<forall>c\<in>set ds. is_digit c"
  shows "decimal_literal ds"
proof -
  from assms(2) have tw: "takeWhile is_digit ds = ds" and dw: "dropWhile is_digit ds = []"
    by simp_all
  show ?thesis
    unfolding decimal_literal_def Let_def tw dw using assms(1) by simp
qed

lemma decimal_literal_fraction:
  assumes "ds \<noteq> []" and "\<forall>c\<in>set ds. is_digit c" and "fs \<noteq> []" and "\<forall>c\<in>set fs. is_digit c"
  shows "decimal_literal (ds @ ''.'' @ fs)"
proof -
  have dot: "\<not> is_digit CHR ''.''" by code_simp
  from assms(2) dot have "takeWhile is_digit (ds @ ''.'' @ fs) = ds"
    "dropWhile is_digit (ds @ ''.'' @ fs) = ''.'' @ fs"
    by (simp_all add: takeWhile_append2 dropWhile_append2)
  with assms show ?thesis
    by (simp add: decimal_literal_def Let_def list_all_iff)
qed

lemma step_Seq_iff:
  "x \<in> set (step ic (Seq r1 r2) st) \<longleftrightarrow> (\<exists>y\<in>set (step ic r1 st). x \<in> set (step ic r2 y))"
  by auto

lemma step_Opt_iff:
  "x \<in> set (step ic (Opt r) st) \<longleftrightarrow> x = st \<or> x \<in> set (step ic r st)"
  by auto

lemma step_Alt_iff:
  "x \<in> set (step ic (Alt r1 r2) st) \<longleftrightarrow> x \<in> set (step ic r1 st) \<or> x \<in> set (step ic r2 st)"
  by auto

lemma step_GroupD:
  "(p', s', g') \<in> set (step ic (Group n r) (p, s, g)) \<Longrightarrow>
     \<exists>g0. (p', s', g0) \<in> set (step ic r (p, s, g)) \<and> g' = (n, take (length s - length s') s) # g0"
  by auto

lemma step_number:
  assumes "(p', s', g') \<in> set (step ic (Seq (Rep 1 Digit) (Opt (Seq (Item (Lit CHR ''.'')) (Rep 1 Digit)))) (p, s, g))"
  shows "g' = g \<and> (\<exists>n. s = n @ s' \<and> decimal_literal n)"
proof -
  from assms obtain st1 where
    m1: "st1 \<in> set (step ic (Rep 1 Digit) (p, s, g))" and
    2: "(p', s', g') \<in> set (step ic (Opt (Seq (Item (Lit CHR ''.'')) (Rep 1 Digit))) st1)"
    unfolding step_Seq_iff by blast
  obtain p1 s1 g1 where st1: "st1 = (p1, s1, g1)"
    using prod_cases3 by blast
  from m1 have 1: "(p1, s1, g1) \<in> set (rep ic 1 Digit (p, s, g))"
    unfolding st1 by simp
  from rep_consumed [OF 1] obtain ds where
    ds: "s = ds @ s1" "\<forall>c\<in>set ds. is_digit c" "1 \<le> length ds" "g1 = g"
    by auto
  then have ne: "ds \<noteq> []" by auto
  from 2 have "(p', s', g') = (p1, s1, g1) \<or>
      (p', s', g') \<in> set (step ic (Seq (Item (Lit CHR ''.'')) (Rep 1 Digit)) (p1, s1, g1))"
    unfolding step_Opt_iff st1 .
  then show ?thesis
  proof
    assume "(p', s', g') = (p1, s1, g1)"
    with ds ne decimal_literal_digits [of ds] show ?thesis by auto
  next
    assume "(p', s', g') \<in> set (step ic (Seq (Item (Lit CHR ''.'')) (Rep 1 Digit)) (p1, s1, g1))"
    then have "\<exists>cs. s1 = CHR ''.'' # cs \<and> (p', s', g') \<in> set (step ic (Rep 1 Digit) (Some CHR ''.'', cs, g1))"
      by (cases s1) (simp_all add: step_Item_Seq accepts_dot del: accepts.simps step.simps split: if_splits)
    then obtain cs where cs: "s1 = CHR ''.'' # cs" "(p', s', g') \<in> set (rep ic 1 Digit (Some CHR ''.'', cs, g1))"
      by auto
    from rep_consumed [OF cs(2)] obtain fs where
      fs: "cs = fs @ s'" "\<forall>c\<in>set fs. is_digit c" "1 \<le> length fs" "g' = g1"
      by auto
    then have "fs \<noteq> []" by auto
    from decimal_literal_fraction [OF ne ds(2) this fs(2)] ds cs(1) fs
    have "s = (ds @ ''.'' @ fs) @ s' \<and> decimal_literal (ds @ ''.'' @ fs) \<and> g' = g"
      by simp
    then show ?thesis by blast
  qed
qed

lemma step_lit_groups:
  "(p', s', g') \<in> set (step ic (lit k) (p, s, g)) \<Longrightarrow> g' = g"
proof (induction k arbitrary: p s rule: lit.induct)
  case 1
  then show ?case by simp
next
  case (2 c)
  then show ?case by (auto split: list.splits if_splits)
next
  case (3 c c' cs)
  from 3(2) obtain x xs where "(p', s', g') \<in> set (step ic (lit (c' # cs)) (Some x, xs, g))"
    by (auto simp: step_Item_Seq simp del: accepts.simps split: list.splits if_splits)
  then show ?case by (rule 3(1))
qed

lemma step_unit_groups:
  assumes "(p', s', g') \<in> set (step ic (Opt (Group 2 (alts [lit ''mm'', lit ''in'', lit ''inch'']))) (p, s, g))"
  shows "g' = g \<or> (\<exists>u. g' = (2, u) # g)"
proof -
  from assms have "(p', s', g') = (p, s, g) \<or>
      (p', s', g') \<in> set (step ic (Group 2 (Alt (lit ''mm'') (Alt (lit ''in'') (lit ''inch'')))) (p, s, g))"
    unfolding step_Opt_iff by simp
  then show ?thesis
  proof
    assume "(p', s', g') = (p, s, g)"
    then show ?thesis by simp
  next
    assume "(p', s', g') \<in> set (step ic (Group 2 (Alt (lit ''mm'') (Alt (lit ''in'') (lit ''inch'')))) (p, s, g))"
    then obtain g0 where "g' = (2, take (length s - length s') s) # g0" and
      "(p', s', g0) \<in> set (step ic (Alt (lit ''mm'') (Alt (lit ''in'') (lit ''inch''))) (p, s, g))"
      by (blast dest: step_GroupD)
    moreover from this(2) have "g0 = g"
      unfolding step_Alt_iff by (blast dest: step_lit_groups)
    ultimately show ?thesis by blast
  qed
qed

lemma step_size_group1:
  assumes "(p', s', g') \<in> set (step ic size_re (p, s, []))"
  shows "\<exists>n. map_of g' 1 = Some n \<and> decimal_literal n"
proof -
  from assms obtain st1 where
    m1: "st1 \<in> set (step ic (Group 1 (Seq (Rep 1 Digit) (Opt (Seq (Item (Lit CHR ''.'')) (Rep 1 Digit))))) (p, s, []))" and
    2: "(p', s', g') \<in> set (step ic (Seq (Rep 0 Space) (Opt (Group 2 (alts [lit ''mm'', lit ''in'', lit ''inch''])))) st1)"
    unfolding size_re_unfold step_Seq_iff [of _ _ "Group 1 _"] by blast
  obtain p1 s1 g1 where st1: "st1 = (p1, s1, g1)"
    using prod_cases3 by blast
  from m1 have 1: "(p1, s1, g1) \<in> set (step ic (Group 1 (Seq (Rep 1 Digit) (Opt (Seq (Item (Lit CHR ''.'')) (Rep 1 Digit))))) (p, s, []))"
    unfolding st1 .
  from 1 obtain g0 where
    0: "(p1, s1, g0) \<in> set (step ic (Seq (Rep 1 Digit) (Opt (Seq (Item (Lit CHR ''.'')) (Rep 1 Digit)))) (p, s, []))"
    and g1: "g1 = (1, take (length s - length s1) s) # g0"
    by (blast dest: step_GroupD)
  from step_number [OF 0] obtain n where n: "s = n @ s1" "decimal_literal n" by blast
  with g1 have g1': "map_of g1 1 = Some n" by simp
  from 2 obtain st2 where
    m2: "st2 \<in> set (step ic (Rep 0 Space) (p1, s1, g1))" and
    4: "(p', s', g') \<in> set (step ic (Opt (Group 2 (alts [lit ''mm'', lit ''in'', lit ''inch'']))) st2)"
    unfolding st1 step_Seq_iff by blast
  obtain p2 s2 g2 where st2: "st2 = (p2, s2, g2)"
    using prod_cases3 by blast
  from m2 have 3: "(p2, s2, g2) \<in> set (rep ic 0 Space (p1, s1, g1))"
    unfolding st2 by simp
  from rep_consumed [OF 3] have g2: "g2 = g1" by blast
  from step_unit_groups [OF 4 [unfolded st2]] have "g' = g2 \<or> (\<exists>u. g' = (2, u) # g2)" .
  with g2 g1' n(2) show ?thesis by auto
qed

text \<open>\<open>float\<close> is only ever applied to a decimal literal, so it never raises.\<close>

lemma size_matches_are_numbers:
  "\<forall>m\<in>set (finditer ic size_re v). decimal_literal (group_text m 1)"
  by (rule finditer_forall) (auto simp: group_text_def match_group_def dest!: step_size_group1)

section \<open>The text that the size pattern takes\<close>

lemma cased_append: "cased ic (a @ b) = cased ic a @ cased ic b"
  by (simp add: cased_def str_lower_append)

lemma length_cased: "length (cased ic s) = length s"
  by (simp add: cased_def length_str_lower)

lemma cased_units: "cased ic ''mm'' = ''mm''" "cased ic ''in'' = ''in''" "cased ic ''inch'' = ''inch''"
  by (simp_all add: cased_def lower_mm)

lemma step_lit_exact:
  "k \<noteq> [] \<Longrightarrow>
   step False (lit k) (p, s, g) =
     (if prefix k s then [(Some (s ! (length k - 1)), drop (length k) s, g)] else [])"
proof (induction k arbitrary: p s rule: lit.induct)
  case 1
  then show ?case by simp
next
  case (2 c)
  show ?case by (cases s) auto
next
  case (3 c c' cs)
  have ih: "step False (lit (c' # cs)) (p', s', g) =
     (if prefix (c' # cs) s'
      then [(Some (s' ! (length (c' # cs) - 1)), drop (length (c' # cs)) s', g)] else [])" for p' s'
    by (rule 3) simp
  show ?case
  proof (cases s)
    case Nil
    then show ?thesis by simp
  next
    case (Cons x xs)
    have "step False (lit (c # c' # cs)) (p, x # xs, g) =
            (if x = c then step False (lit (c' # cs)) (Some x, xs, g) else [])"
      by simp
    also have "\<dots> = (if prefix (c # c' # cs) (x # xs)
      then [(Some ((x # xs) ! (length (c # c' # cs) - 1)), drop (length (c # c' # cs)) (x # xs), g)] else [])"
      by (simp only: ih) auto
    finally show ?thesis by (simp only: Cons)
  qed
qed

lemma step_lit_cased:
  assumes "k \<noteq> []"
  shows "step ic (lit k) (p, s, g) =
     (if prefix (cased ic k) (cased ic s)
      then [(Some (s ! (length k - 1)), drop (length k) s, g)] else [])"
proof (cases ic)
  case True
  with step_lit [OF assms, of p s g] show ?thesis
    by (simp add: cased_def del: step.simps lit.simps)
next
  case False
  with step_lit_exact [OF assms, of p s g] show ?thesis
    by (simp add: cased_def del: step.simps lit.simps)
qed

lemma first_way_unit:
  assumes "cased ic u = ''mm'' \<or> cased ic u = ''in''"
  shows "first_way ic (Opt (Group 2 (alts [lit ''mm'', lit ''in'', lit ''inch'']))) (p, u @ t, g) =
           Some (Some (u ! 1), t, (2, u) # g)"
proof -
  from assms have len: "length u = 2"
    using length_cased [of ic u] by auto
  have "step ic (alts [lit ''mm'', lit ''in'', lit ''inch'']) (p, u @ t, g) \<noteq> [] \<and>
        hd (step ic (alts [lit ''mm'', lit ''in'', lit ''inch'']) (p, u @ t, g)) = (Some (u ! 1), t, g)"
    using assms len
    by (auto simp: step_lit_cased cased_units cased_append nth_append simp del: lit.simps)
  then have "first_way ic (alts [lit ''mm'', lit ''in'', lit ''inch'']) (p, u @ t, g) = Some (Some (u ! 1), t, g)"
    by (auto simp: first_way_def simp del: lit.simps step.simps alts.simps split: list.splits)
  from first_way_Group [OF this, of 2] len show ?thesis
    by (simp add: first_way_Opt del: lit.simps step.simps alts.simps)
qed

lemma first_way_no_unit:
  assumes "\<not> prefix ''mm'' (cased ic t)" and "\<not> prefix ''in'' (cased ic t)"
  shows "first_way ic (Opt (Group 2 (alts [lit ''mm'', lit ''in'', lit ''inch'']))) (p, t, g) = Some (p, t, g)"
proof -
  have "\<not> prefix ''inch'' (cased ic t)"
    using assms(2) by (auto simp: prefix_def)
  with assms have "step ic (Group 2 (alts [lit ''mm'', lit ''in'', lit ''inch''])) (p, t, g) = []"
    by (simp add: step_lit_cased cased_units del: lit.simps)
  then show ?thesis
    by (simp add: first_way_Opt first_way_None del: lit.simps step.simps alts.simps)
qed


lemma first_way_literal:
  assumes "decimal_literal n" and "\<not> continues n t"
  shows "\<exists>p'. first_way ic (Seq (Rep 1 Digit) (Opt (Seq (Item (Lit CHR ''.'')) (Rep 1 Digit))))
            (p, n @ t, g) = Some (p', t, g)"
proof -
  have dot: "\<not> is_digit CHR ''.''" by code_simp
  from decimal_literal_form [OF assms(1)] obtain ds where
    ds: "ds \<noteq> []" "\<forall>c\<in>set ds. is_digit c" and
    n: "n = ds \<or> (\<exists>fs. fs \<noteq> [] \<and> (\<forall>c\<in>set fs. is_digit c) \<and> n = ds @ ''.'' @ fs)"
    by blast
  from assms(2) have t: "t = [] \<or> \<not> is_digit (hd t)"
    by (cases t) (auto simp: continues_def)
  from n show ?thesis
  proof
    assume n: "n = ds"
    with ds(2) dot have "CHR ''.'' \<notin> set n" by auto
    with assms(2) have t': "t = [] \<or> hd t \<noteq> CHR ''.'' \<or> tl t = [] \<or> \<not> is_digit (hd (tl t))"
      by (cases t; cases "tl t") (auto simp: continues_def)
    from first_way_digits [OF ds t] obtain p1 where
      1: "first_way ic (Rep 1 Digit) (p, ds @ t, g) = Some (p1, t, g)" by blast
    have "step ic (Seq (Item (Lit CHR ''.'')) (Rep 1 Digit)) (p1, t, g) = []"
    proof (cases t)
      case Nil
      then show ?thesis by simp
    next
      case (Cons c cs)
      show ?thesis
      proof (cases "c = CHR ''.''")
        case True
        with t' Cons have "cs = [] \<or> \<not> accepts ic Digit (hd cs)" by simp
        from first_way_Rep_none [OF this, of 0] True Cons show ?thesis
          by (simp add: step_Item_Seq accepts_dot del: accepts.simps step.simps)
      next
        case False
        with Cons show ?thesis
          by (simp add: step_Item_Seq accepts_dot del: accepts.simps step.simps)
      qed
    qed
    then have "first_way ic (Seq (Item (Lit CHR ''.'')) (Rep 1 Digit)) (p1, t, g) = None"
      by (rule first_way_None)
    then have 2: "first_way ic (Opt (Seq (Item (Lit CHR ''.'')) (Rep 1 Digit))) (p1, t, g) = Some (p1, t, g)"
      by (simp add: first_way_Opt)
    from first_way_Seq [OF 1 2] n show ?thesis by blast
  next
    assume "\<exists>fs. fs \<noteq> [] \<and> (\<forall>c\<in>set fs. is_digit c) \<and> n = ds @ ''.'' @ fs"
    then obtain fs where fs: "fs \<noteq> []" "\<forall>c\<in>set fs. is_digit c" and n: "n = ds @ ''.'' @ fs"
      by blast
    have "''.'' @ fs @ t = [] \<or> \<not> is_digit (hd (''.'' @ fs @ t))" using dot by simp
    from first_way_digits [OF ds this] obtain p1 where
      1: "first_way ic (Rep 1 Digit) (p, ds @ (''.'' @ fs @ t), g) = Some (p1, ''.'' @ fs @ t, g)"
      by blast
    from first_way_digits [OF fs t] obtain p2 where
      "first_way ic (Rep 1 Digit) (Some CHR ''.'', fs @ t, g) = Some (p2, t, g)" by blast
    then have "first_way ic (Seq (Item (Lit CHR ''.'')) (Rep 1 Digit)) (p1, ''.'' @ fs @ t, g) = Some (p2, t, g)"
      by (simp add: first_way_def step_Item_Seq accepts_dot del: accepts.simps step.simps)
    then have 2: "first_way ic (Opt (Seq (Item (Lit CHR ''.'')) (Rep 1 Digit))) (p1, ''.'' @ fs @ t, g) = Some (p2, t, g)"
      by (simp add: first_way_Opt)
    from first_way_Seq [OF 1 2] have
      "first_way ic (Seq (Rep 1 Digit) (Opt (Seq (Item (Lit CHR ''.'')) (Rep 1 Digit))))
         (p, ds @ (''.'' @ fs @ t), g) = Some (p2, t, g)" .
    then show ?thesis by (simp add: n del: step.simps)
  qed
qed

lemma lower_i_not_number:
  assumes "lower_char c = CHR ''i''"
  shows "\<not> is_digit c \<and> c \<noteq> CHR ''.'' \<and> \<not> is_space c"
proof -
  from assms have "code (lower_char c) = 105" by (simp add: code_simps)
  then have "code c = 73 \<or> code c = 105"
    by (auto simp: code_lower_char split: if_splits)
  then show ?thesis
    using code_simps(1) by (auto simp: is_space_def is_digit_def Let_def)
qed

lemma lower_m_i: "lower_char CHR ''m'' = CHR ''m''" "lower_char CHR ''i'' = CHR ''i''"
  by code_simp+

lemma unit_head:
  assumes "cased ic u = ''mm'' \<or> cased ic u = ''in''"
  shows "u \<noteq> [] \<and> \<not> is_digit (hd u) \<and> hd u \<noteq> CHR ''.'' \<and> \<not> is_space (hd u)"
proof -
  from assms obtain a b where u: "u = [a, b]"
    using length_cased [of ic u] by (cases u; cases "tl u") auto
  with assms have "lower_char a = CHR ''m'' \<or> lower_char a = CHR ''i''"
    by (cases ic) (auto simp: cased_def str_lower_def lower_m_i)
  with lower_m_not_number [of a] lower_i_not_number [of a] u show ?thesis by auto
qed

lemma digit_not_space: "is_digit c \<Longrightarrow> \<not> is_space c"
  by (auto simp: is_space_def is_digit_def Let_def)

text \<open>What the pattern takes where a number begins.\<close>

lemma first_way_token:
  assumes "token ic n ws u t"
  shows "\<exists>p'. first_way ic size_re (p, n @ ws @ u @ t, []) =
                Some (p', t, if u = [] then [(1, n)] else [(2, u), (1, n)])"
proof -
  from assms have n: "decimal_literal n" and ws: "\<forall>c\<in>set ws. is_space c" and
    u: "cased ic u = ''mm'' \<or> cased ic u = ''in'' \<or>
      (u = [] \<and> (t = [] \<or> \<not> is_space (hd t)) \<and>
       \<not> prefix ''mm'' (cased ic t) \<and> \<not> prefix ''in'' (cased ic t) \<and>
       (ws = [] \<longrightarrow> \<not> continues n t))"
    by (simp_all add: token_def list_all_iff)
  have c: "\<not> continues n (ws @ u @ t)"
  proof (cases ws)
    case (Cons w ws')
    with ws have "is_space w" by simp
    from space_not_number [OF this] Cons show ?thesis by (simp add: continues_def)
  next
    case Nil
    from u show ?thesis
    proof (elim disjE)
      assume "cased ic u = ''mm''"
      then have "cased ic u = ''mm'' \<or> cased ic u = ''in''" by simp
      from unit_head [OF this] Nil show ?thesis by (cases u) (auto simp: continues_def)
    next
      assume "cased ic u = ''in''"
      then have "cased ic u = ''mm'' \<or> cased ic u = ''in''" by simp
      from unit_head [OF this] Nil show ?thesis by (cases u) (auto simp: continues_def)
    next
      assume "u = [] \<and> (t = [] \<or> \<not> is_space (hd t)) \<and>
       \<not> prefix ''mm'' (cased ic t) \<and> \<not> prefix ''in'' (cased ic t) \<and>
       (ws = [] \<longrightarrow> \<not> continues n t)"
      with Nil show ?thesis by simp
    qed
  qed
  from first_way_literal [OF n c] obtain p1 where
    "first_way ic (Seq (Rep 1 Digit) (Opt (Seq (Item (Lit CHR ''.'')) (Rep 1 Digit))))
       (p, n @ ws @ u @ t, []) = Some (p1, ws @ u @ t, [])"
    by blast
  from first_way_Group [OF this, of 1] have 1:
    "first_way ic (Group 1 (Seq (Rep 1 Digit) (Opt (Seq (Item (Lit CHR ''.'')) (Rep 1 Digit)))))
       (p, n @ ws @ u @ t, []) = Some (p1, ws @ u @ t, [(1, n)])"
    by simp
  have "u @ t = [] \<or> \<not> is_space (hd (u @ t))"
    using u unit_head [of ic u] by (cases u) auto
  from first_way_spaces [OF ws this] obtain p2 where 2:
    "first_way ic (Rep 0 Space) (p1, ws @ u @ t, [(1, n)]) = Some (p2, u @ t, [(1, n)])"
    by blast
  show ?thesis
  proof (cases "cased ic u = ''mm'' \<or> cased ic u = ''in''")
    case True
    note 3 = first_way_unit [OF True, of p2 t "[(1, n)]"]
    from unit_head [OF True] have "u \<noteq> []" by simp
    from first_way_Seq [OF 1 first_way_Seq [OF 2 3]]
    have "first_way ic size_re (p, n @ ws @ u @ t, []) = Some (Some (u ! 1), t, [(2, u), (1, n)])"
      by (simp only: size_re_unfold)
    with \<open>u \<noteq> []\<close> have "first_way ic size_re (p, n @ ws @ u @ t, []) =
                Some (Some (u ! 1), t, if u = [] then [(1, n)] else [(2, u), (1, n)])"
      by (simp only: if_False)
    then show ?thesis ..
  next
    case False
    with u have e: "u = []" and np: "\<not> prefix ''mm'' (cased ic t)" "\<not> prefix ''in'' (cased ic t)"
      by auto
    note 3 = first_way_no_unit [OF np, of p2 "[(1, n)]"]
    from first_way_Seq [OF 1 [unfolded e append_Nil] first_way_Seq [OF 2 [unfolded e append_Nil] 3]]
    have "first_way ic size_re (p, n @ ws @ t, []) = Some (p2, t, [(1, n)])"
      by (simp only: size_re_unfold)
    then have "first_way ic size_re (p, n @ ws @ u @ t, []) =
                Some (p2, t, if u = [] then [(1, n)] else [(2, u), (1, n)])"
      by (simp only: e append_Nil if_True simp_thms)
    then show ?thesis ..
  qed
qed


lemma cased_take: "cased ic (take k s) = take k (cased ic s)"
  by (simp add: cased_def lower_take)

text \<open>Where a digit stands, the pattern takes a number, white space and a unit.\<close>

lemma token_exists:
  assumes "s \<noteq> []" and "is_digit (hd s)"
  shows "\<exists>n ws u t. s = n @ ws @ u @ t \<and> token ic n ws u t"
proof -
  have dot: "\<not> is_digit CHR ''.''" by code_simp
  define ds where "ds = takeWhile is_digit s"
  define r1 where "r1 = dropWhile is_digit s"
  have s: "s = ds @ r1" by (simp add: ds_def r1_def)
  have ds: "ds \<noteq> []" "\<forall>c\<in>set ds. is_digit c"
    using assms by (cases s; auto simp: ds_def dest: set_takeWhileD)+
  have r1: "r1 = [] \<or> \<not> is_digit (hd r1)"
    unfolding r1_def by (metis hd_dropWhile)
  have "\<exists>n r2. s = n @ r2 \<and> decimal_literal n \<and> \<not> continues n r2"
  proof (cases "\<exists>d r'. r1 = CHR ''.'' # d # r' \<and> is_digit d")
    case True
    then obtain d r' where r: "r1 = CHR ''.'' # d # r'" and d: "is_digit d" by blast
    define fs where "fs = takeWhile is_digit (d # r')"
    define r2 where "r2 = dropWhile is_digit (d # r')"
    have fs: "fs \<noteq> []" "\<forall>c\<in>set fs. is_digit c"
      using d by (auto simp: fs_def dest: set_takeWhileD)
    have "d # r' = fs @ r2" by (simp add: fs_def r2_def)
    with s r have 1: "s = (ds @ ''.'' @ fs) @ r2" by simp
    have "r2 = [] \<or> \<not> is_digit (hd r2)"
      unfolding r2_def by (metis hd_dropWhile)
    then have "\<not> continues (ds @ ''.'' @ fs) r2"
      by (cases r2) (auto simp: continues_def)
    with 1 decimal_literal_fraction [OF ds fs] show ?thesis by blast
  next
    case False
    with r1 have "\<not> continues ds r1"
      by (cases r1; cases "tl r1") (auto simp: continues_def)
    with s decimal_literal_digits [OF ds] show ?thesis by blast
  qed
  then obtain n r2 where n: "s = n @ r2" "decimal_literal n" "\<not> continues n r2" by blast
  define ws where "ws = takeWhile is_space r2"
  define r3 where "r3 = dropWhile is_space r2"
  have r2: "r2 = ws @ r3" by (simp add: ws_def r3_def)
  have ws: "list_all is_space ws"
    by (auto simp: ws_def list_all_iff dest: set_takeWhileD)
  have r3: "r3 = [] \<or> \<not> is_space (hd r3)"
    unfolding r3_def by (metis hd_dropWhile)
  have e: "ws = [] \<Longrightarrow> r3 = r2"
    using r2 by simp
  show ?thesis
  proof (cases "prefix ''mm'' (cased ic r3) \<or> prefix ''in'' (cased ic r3)")
    case True
    then have "cased ic (take 2 r3) = ''mm'' \<or> cased ic (take 2 r3) = ''in''"
      using prefix_take [of "''mm''" "cased ic r3"] prefix_take [of "''in''" "cased ic r3"]
      by (auto simp: cased_take eval_nat_numeral)
    with n(2) ws have "token ic n ws (take 2 r3) (drop 2 r3)"
      unfolding token_def by blast
    moreover have "s = n @ ws @ take 2 r3 @ drop 2 r3"
      using n(1) r2 by simp
    ultimately show ?thesis by blast
  next
    case False
    with n(2,3) ws r3 e have "token ic n ws [] r3"
      by (auto simp: token_def)
    moreover have "s = n @ ws @ [] @ r3"
      using n(1) r2 by simp
    ultimately show ?thesis by blast
  qed
qed

lemma token_nonempty: "token ic n ws u t \<Longrightarrow> n @ ws @ u \<noteq> []"
  by (auto simp: token_def dest: decimal_literal_nonempty)

text \<open>The character before a position plays no part: the size pattern has no \<open>\b\<close>.\<close>

lemma scan_size_any_before:
  "scan ic size_re False p s = scan ic size_re False q s"
proof (induction "length s" arbitrary: s p q rule: less_induct)
  case less
  show ?case
  proof (cases "s = [] \<or> \<not> is_digit (hd s)")
    case True
    then have "step ic size_re (p, s, []) = []" "step ic size_re (q, s, []) = []"
      by (simp_all add: step_size_nondigit del: step.simps)
    then show ?thesis
      by (simp add: scan_first [of ic size_re _ s] del: step.simps)
  next
    case False
    with token_exists [of s ic] obtain n ws u t where
      s: "s = n @ ws @ u @ t" and tok: "token ic n ws u t" by blast
    let ?g = "if u = [] then [(1, n)] else [(2, u), (1, n)]"
    from first_way_token [OF tok] obtain p' where
      "first_way ic size_re (p, (n @ ws @ u) @ t, []) = Some (p', t, ?g)" by auto
    from scan_at_match [OF this token_nonempty [OF tok]]
    have 1: "scan ic size_re False p s = (n @ ws @ u, ?g) # scan ic size_re False p' t"
      by (simp add: s)
    from first_way_token [OF tok] obtain q' where
      "first_way ic size_re (q, (n @ ws @ u) @ t, []) = Some (q', t, ?g)" by auto
    from scan_at_match [OF this token_nonempty [OF tok]]
    have 2: "scan ic size_re False q s = (n @ ws @ u, ?g) # scan ic size_re False q' t"
      by (simp add: s)
    have "length t < length s"
      using token_nonempty [OF tok] by (simp add: s)
    from less [OF this, of p' q'] 1 2 show ?thesis by simp
  qed
qed

lemma scan_size_finditer: "scan ic size_re False p s = finditer ic size_re s"
  unfolding finditer_def by (rule scan_size_any_before)


lemma decimal_literal_ends:
  assumes "decimal_literal n"
  shows "n \<noteq> [] \<and> is_digit (hd n) \<and> is_digit (last n)"
proof -
  from decimal_literal_form [OF assms] obtain ds where
    ds: "ds \<noteq> []" "\<forall>c\<in>set ds. is_digit c" and
    n: "n = ds \<or> (\<exists>fs. fs \<noteq> [] \<and> (\<forall>c\<in>set fs. is_digit c) \<and> n = ds @ ''.'' @ fs)"
    by blast
  from ds have "is_digit (hd ds)" "is_digit (last ds)" by simp_all
  with n ds show ?thesis by (auto simp: hd_append)
qed

lemma cased_digit:
  assumes "is_digit d"
  shows "cased ic (d # r) = d # cased ic r" and "d \<noteq> CHR ''m''" and "d \<noteq> CHR ''i''" and "d \<noteq> CHR ''n''"
proof -
  from assms have "\<not> is_upper d" by (auto simp: is_digit_def is_upper_def Let_def)
  then show "cased ic (d # r) = d # cased ic r"
    by (simp add: cased_def str_lower_def lower_char_def)
  have "\<not> is_digit CHR ''m''" "\<not> is_digit CHR ''i''" "\<not> is_digit CHR ''n''" by code_simp+
  with assms show "d \<noteq> CHR ''m''" and "d \<noteq> CHR ''i''" and "d \<noteq> CHR ''n''" by auto
qed

lemma prefix_two_digit:
  assumes "\<not> prefix [a, b] x" and "d \<noteq> a" and "d \<noteq> b"
  shows "\<not> prefix [a, b] (x @ d # y)"
  using assms by (cases x; cases "tl x") auto

text \<open>
  A token whose text does not end in a digit or a point is the same token when a
  number follows the text.
\<close>

lemma token_extend:
  assumes "token ic n ws u t" and "\<not> is_digit (last (n @ ws @ u @ t))"
    and "last (n @ ws @ u @ t) \<noteq> CHR ''.''" and "is_digit d"
  shows "token ic n ws u (t @ d # r)"
proof (cases "cased ic u = ''mm'' \<or> cased ic u = ''in''")
  case True
  with assms(1) show ?thesis unfolding token_def by blast
next
  case False
  with assms(1) have n: "decimal_literal n" and ws: "list_all is_space ws" and u: "u = []" and
    sp: "t = [] \<or> \<not> is_space (hd t)" and
    np: "\<not> prefix ''mm'' (cased ic t)" "\<not> prefix ''in'' (cased ic t)" and
    co: "ws = [] \<longrightarrow> \<not> continues n t"
    unfolding token_def by blast+
  have 1: "\<not> is_space (hd (t @ d # r))"
    using sp digit_not_space [OF assms(4)] by (cases t) auto
  have c: "cased ic (t @ d # r) = cased ic t @ d # cased ic r"
    by (simp add: cased_append cased_digit(1) [OF assms(4)])
  note dg = cased_digit(2,3,4) [OF assms(4)]
  have 2: "\<not> prefix ''mm'' (cased ic (t @ d # r))" "\<not> prefix ''in'' (cased ic (t @ d # r))"
    unfolding c
    using prefix_two_digit [OF np(1) dg(1) dg(1), of "cased ic r"]
      prefix_two_digit [OF np(2) dg(2) dg(3), of "cased ic r"]
    by simp_all
  have 3: "\<not> continues n (t @ d # r)" if w: "ws = []"
  proof (cases t)
    case Nil
    with assms(2) u w decimal_literal_ends [OF n] show ?thesis by simp
  next
    case (Cons c cs)
    show ?thesis
    proof (cases cs)
      case Nil
      with Cons assms(3) u w have "c \<noteq> CHR ''.''" by simp
      with co w Cons Nil show ?thesis by (simp add: continues_def)
    next
      case (Cons c' cs')
      with co w \<open>t = c # cs\<close> show ?thesis by (simp add: continues_def)
    qed
  qed
  from n ws u 1 2 3 show ?thesis
    unfolding token_def by simp
qed

text \<open>
  The matches in a text that does not end in a digit or a point are not changed by a
  number behind it.
\<close>

lemma scan_size_append:
  assumes "pre = [] \<or> (\<not> is_digit (last pre) \<and> last pre \<noteq> CHR ''.'')" and "is_digit d"
  shows "scan ic size_re False p (pre @ d # r) = scan ic size_re False p pre @ finditer ic size_re (d # r)"
  using assms(1)
proof (induction "length pre" arbitrary: pre p rule: less_induct)
  case less
  show ?case
  proof (cases pre)
    case Nil
    have "step ic size_re (p, [], []) = []"
      by (simp add: step_size_nondigit del: step.simps)
    then have "scan ic size_re False p [] = []"
      by (simp add: scan_first [of ic size_re p "[]"] del: step.simps)
    with Nil show ?thesis by (simp add: scan_size_finditer)
  next
    case (Cons c cs)
    show ?thesis
    proof (cases "is_digit c")
      case False
      then have "step ic size_re (p, c # cs, []) = []" "step ic size_re (p, c # cs @ d # r, []) = []"
        by (simp_all add: step_size_nondigit del: step.simps)
      then have 1: "scan ic size_re False p (c # cs) = scan ic size_re False (Some c) cs"
        "scan ic size_re False p (c # cs @ d # r) = scan ic size_re False (Some c) (cs @ d # r)"
        by (simp_all add: scan_first [of ic size_re p "c # cs"]
            scan_first [of ic size_re p "c # cs @ d # r"] del: step.simps)
      have "cs = [] \<or> (\<not> is_digit (last cs) \<and> last cs \<noteq> CHR ''.'')"
        using less.prems Cons by (cases cs) auto
      from less.hyps [OF _ this, of "Some c"] 1 Cons show ?thesis by simp
    next
      case True
      with token_exists [of pre ic] Cons obtain n ws u t where
        s: "pre = n @ ws @ u @ t" and tok: "token ic n ws u t" by auto
      let ?g = "if u = [] then [(1, n)] else [(2, u), (1, n)]"
      from less.prems Cons s have e: "\<not> is_digit (last (n @ ws @ u @ t))" "last (n @ ws @ u @ t) \<noteq> CHR ''.''"
        by auto
      note tok' = token_extend [OF tok e assms(2), of r]
      from first_way_token [OF tok] obtain p1 where
        "first_way ic size_re (p, (n @ ws @ u) @ t, []) = Some (p1, t, ?g)" by auto
      from scan_at_match [OF this token_nonempty [OF tok]]
      have 1: "scan ic size_re False p pre = (n @ ws @ u, ?g) # scan ic size_re False p1 t"
        by (simp add: s)
      from first_way_token [OF tok'] obtain p2 where
        "first_way ic size_re (p, (n @ ws @ u) @ (t @ d # r), []) = Some (p2, t @ d # r, ?g)" by auto
      from scan_at_match [OF this token_nonempty [OF tok]]
      have "scan ic size_re False p (pre @ d # r) = (n @ ws @ u, ?g) # scan ic size_re False p2 (t @ d # r)"
        by (simp add: s)
      then have 2: "scan ic size_re False p (pre @ d # r) = (n @ ws @ u, ?g) # scan ic size_re False p1 (t @ d # r)"
        by (simp add: scan_size_any_before [of ic p2 _ p1])
      have l: "length t < length pre"
        using token_nonempty [OF tok] by (simp add: s)
      have "t = [] \<or> (\<not> is_digit (last t) \<and> last t \<noteq> CHR ''.'')"
        using e by (cases t) auto
      from less.hyps [OF l this, of p1] 1 2 show ?thesis by simp
    qed
  qed
qed

text \<open>
  The matches of a text around a number: those before it, the number with its white
  space and unit, those behind it.
\<close>

lemma finditer_token:
  assumes "pre = [] \<or> (\<not> is_digit (last pre) \<and> last pre \<noteq> CHR ''.'')" and "token ic n ws u post"
  shows "finditer ic size_re (pre @ n @ ws @ u @ post) =
           finditer ic size_re pre @
           (n @ ws @ u, if u = [] then [(1, n)] else [(2, u), (1, n)]) # finditer ic size_re post"
proof -
  from assms(2) have "decimal_literal n" by (simp add: token_def)
  from decimal_literal_ends [OF this] obtain d r where n: "n = d # r" and d: "is_digit d"
    by (cases n) auto
  let ?g = "if u = [] then [(1, n)] else [(2, u), (1, n)]"
  from first_way_token [OF assms(2)] obtain p1 where
    "first_way ic size_re (None, (n @ ws @ u) @ post, []) = Some (p1, post, ?g)" by auto
  from scan_at_match [OF this token_nonempty [OF assms(2)]]
  have 1: "finditer ic size_re (n @ ws @ u @ post) = (n @ ws @ u, ?g) # finditer ic size_re post"
    by (simp add: finditer_def scan_size_any_before [of ic p1 _ None])
  from scan_size_append [OF assms(1) d, of ic None "r @ ws @ u @ post"]
  have "finditer ic size_re (pre @ n @ ws @ u @ post) =
          finditer ic size_re pre @ finditer ic size_re (n @ ws @ u @ post)"
    by (simp add: finditer_def n)
  with 1 show ?thesis by simp
qed

section \<open>The regex pass\<close>

lemma groups_of_patterns:
  "0 < groups_of material_re" "0 < groups_of finish_re" "0 < groups_of general_tolerance_re"
  "0 < groups_of surface_roughness_re" "0 < groups_of threads_re" "0 < groups_of diameters_re"
  "0 < groups_of weld_notes_re" "0 < groups_of standards_re"
  by (simp_all add: material_re_def finish_re_def general_tolerance_re_def
      surface_roughness_re_def threads_re_def diameters_re_def weld_notes_re_def
      standards_re_def decimals_def)

lemma groups_of_pattern: "map_of patterns label = Some pattern \<Longrightarrow> 0 < groups_of pattern"
  using groups_of_patterns by (auto simp: patterns_def split: if_splits)

text \<open>What the pass puts into a set is read from the first capture group of a match.\<close>

lemma regex_pass_group1:
  assumes "map_of patterns label = Some pattern"
  shows "regex_pass text_blob label =
     (let xs = map str_strip (filter (\<lambda>w. str_upper w \<noteq> ''ING'')
                 (map (\<lambda>m. group_text m 1) (finditer True pattern text_blob)))
      in if xs = [] then None else Some (set xs))"
  using regex_pass_field [OF assms] match_text_findall [OF groups_of_pattern [OF assms]]
  by simp

lemma whole_pattern:
  assumes "label \<in> {''material'', ''finish'', ''threads''}"
  shows "\<exists>pattern r. map_of patterns label = Some pattern \<and> pattern = seqs [Bound, Group 1 r, Bound]"
  using assms by (auto simp: patterns_def material_re_def finish_re_def threads_re_def)

text \<open>
  C1, amended: for the fields \<open>material\<close>, \<open>finish\<close> and \<open>threads\<close>, whose first
  capture group spans the whole pattern between its two \<open>\b\<close>, and for every document
  text, the regex pass collects exactly the set of the distinct full matched substrings
  of the field's pattern, each stripped of the whitespace around it, case preserved,
  without those that read \<open>ING\<close> in any letter case.
\<close>

theorem regex_pass_whole_matches:
  assumes "label \<in> {''material'', ''finish'', ''threads''}"
  shows "regex_pass text_blob label =
           map_option (image str_strip) (matched_substrings text_blob label)"
proof -
  from whole_pattern [OF assms] obtain pattern r where
    p: "map_of patterns label = Some pattern" and r: "pattern = seqs [Bound, Group 1 r, Bound]"
    by blast
  have "map (\<lambda>m. group_text m 1) (finditer True pattern text_blob) = map fst (finditer True pattern text_blob)"
    using finditer_group1_whole [of True r text_blob] unfolding r by (intro map_cong) auto
  then show ?thesis
    by (simp only: regex_pass_group1 [OF p]) (simp add: matched_substrings_def p Let_def)
qed

lemma regex_pass_eval:
  assumes "map_of patterns label = Some pattern"
    and "map (\<lambda>m. group_text m 1) (finditer True pattern text_blob) = gs"
    and "map str_strip (filter (\<lambda>w. str_upper w \<noteq> ''ING'') gs) = xs"
  shows "regex_pass text_blob label = (if xs = [] then None else Some (set xs))"
  using assms(2,3) by (simp only: regex_pass_group1 [OF assms(1)]) (simp add: Let_def)

lemma matched_substrings_eval:
  assumes "map_of patterns label = Some pattern"
    and "map fst (finditer True pattern text_blob) = ws"
    and "filter (\<lambda>w. str_upper w \<noteq> ''ING'') ws = ms"
  shows "matched_substrings text_blob label = (if ms = [] then None else Some (set ms))"
  using assms by (simp add: matched_substrings_def Let_def)

lemma map_of_patterns:
  "map_of patterns ''material'' = Some material_re"
  "map_of patterns ''general_tolerance'' = Some general_tolerance_re"
  "map_of patterns ''surface_roughness'' = Some surface_roughness_re"
  "map_of patterns ''diameters'' = Some diameters_re"
  "map_of patterns ''weld_notes'' = Some weld_notes_re"
  "map_of patterns ''standards'' = Some standards_re"
  by (simp_all add: patterns_def)

lemma matched_SS_flange: "matched_substrings ''SS flange'' ''material'' = Some {''SS ''}"
proof -
  have "map fst (finditer True material_re ''SS flange'') = [''SS '']" by code_simp
  moreover have "filter (\<lambda>w. str_upper w \<noteq> ''ING'') [''SS ''] = [''SS '']" by code_simp
  ultimately show ?thesis
    using matched_substrings_eval [OF map_of_patterns(1)] by fastforce
qed

lemma strip_SS: "str_strip ''SS '' = ''SS''"
  by code_simp

theorem regex_pass_whole_matches_witness:
  "regex_pass ''SS flange'' ''material'' = Some {''SS''}"
  using regex_pass_whole_matches [of "''material''" "''SS flange''"]
  by (simp add: matched_SS_flange strip_SS)

lemma regex_pass_DIA_5: "regex_pass ''DIA 5'' ''diameters'' = Some {''DIA''}"
proof -
  have "map (\<lambda>m. group_text m 1) (finditer True diameters_re ''DIA 5'') = [''DIA'']" by code_simp
  moreover have "map str_strip (filter (\<lambda>w. str_upper w \<noteq> ''ING'') [''DIA'']) = [''DIA'']" by code_simp
  ultimately show ?thesis
    using regex_pass_eval [OF map_of_patterns(4)] by fastforce
qed

lemma matched_DIA_5: "matched_substrings ''DIA 5'' ''diameters'' = Some {''DIA 5''}"
proof -
  have "map fst (finditer True diameters_re ''DIA 5'') = [''DIA 5'']" by code_simp
  moreover have "filter (\<lambda>w. str_upper w \<noteq> ''ING'') [''DIA 5''] = [''DIA 5'']" by code_simp
  ultimately show ?thesis
    using matched_substrings_eval [OF map_of_patterns(4)] by fastforce
qed

lemma regex_pass_SS_flange: "regex_pass ''SS flange'' ''material'' = Some {''SS''}"
proof -
  have "map (\<lambda>m. group_text m 1) (finditer True material_re ''SS flange'') = [''SS '']" by code_simp
  moreover have "map str_strip (filter (\<lambda>w. str_upper w \<noteq> ''ING'') [''SS '']) = [''SS'']" by code_simp
  ultimately show ?thesis
    using regex_pass_eval [OF map_of_patterns(1)] by fastforce
qed

text \<open>
  C1, as stated, fails. In \<open>"DIA 5"\<close> the pattern of \<open>diameters\<close> matches \<open>"DIA 5"\<close>, and
  the pass stores \<open>"DIA"\<close>, the text of the first capture group: \<open>findall\<close> returns the
  groups, not the match. In \<open>"SS flange"\<close> the pattern of \<open>material\<close> matches \<open>"SS "\<close>,
  and the pass stores it stripped.
\<close>

theorem regex_pass_counterexample:
  "regex_pass ''DIA 5'' ''diameters'' = Some {''DIA''} \<and>
   matched_substrings ''DIA 5'' ''diameters'' = Some {''DIA 5''} \<and>
   regex_pass ''SS flange'' ''material'' = Some {''SS''} \<and>
   matched_substrings ''SS flange'' ''material'' = Some {''SS ''}"
  by (simp add: regex_pass_DIA_5 matched_DIA_5 regex_pass_SS_flange matched_SS_flange)

text \<open>The same on the other patterns whose first group is a part of the match.\<close>

lemma regex_pass_Ra: "regex_pass ''Ra 3.2 um'' ''surface_roughness'' = Some {''.2''}"
proof -
  have "map (\<lambda>m. group_text m 1) (finditer True surface_roughness_re ''Ra 3.2 um'') = [''.2'']"
    by code_simp
  moreover have "map str_strip (filter (\<lambda>w. str_upper w \<noteq> ''ING'') [''.2'']) = [''.2'']" by code_simp
  ultimately show ?thesis
    using regex_pass_eval [OF map_of_patterns(3)] by fastforce
qed

lemma regex_pass_tolerance: "regex_pass ''+/- 0.5 mm'' ''general_tolerance'' = Some {''+/-''}"
proof -
  have "map (\<lambda>m. group_text m 1) (finditer True general_tolerance_re ''+/- 0.5 mm'') = [''+/-'']"
    by code_simp
  moreover have "map str_strip (filter (\<lambda>w. str_upper w \<noteq> ''ING'') [''+/-'']) = [''+/-'']" by code_simp
  ultimately show ?thesis
    using regex_pass_eval [OF map_of_patterns(2)] by fastforce
qed

lemma regex_pass_weld: "regex_pass ''WELD ALL JOINTS'' ''weld_notes'' = Some {[]}"
proof -
  have "map (\<lambda>m. group_text m 1) (finditer True weld_notes_re ''WELD ALL JOINTS'') = [[]]"
    by code_simp
  moreover have "map str_strip (filter (\<lambda>w. str_upper w \<noteq> ''ING'') [[]]) = [[]]" by code_simp
  ultimately show ?thesis
    using regex_pass_eval [OF map_of_patterns(5)] by fastforce
qed

lemma regex_pass_standards: "regex_pass ''per ASTM-A36'' ''standards'' = Some {''ASTM''}"
proof -
  have "map (\<lambda>m. group_text m 1) (finditer True standards_re ''per ASTM-A36'') = [''ASTM'']"
    by code_simp
  moreover have "map str_strip (filter (\<lambda>w. str_upper w \<noteq> ''ING'') [''ASTM'']) = [''ASTM'']" by code_simp
  ultimately show ?thesis
    using regex_pass_eval [OF map_of_patterns(6)] by fastforce
qed

section \<open>The thread classifier\<close>

lemma lower_keywords:
  "str_lower ''Stud'' = ''stud''" "str_lower ''Anchor'' = ''anchor''"
  "str_lower ''Hole'' = ''hole''" "str_lower ''Bolt'' = ''bolt''"
  by code_simp+

lemma step_type_re:
  "step True type_re (p, s, []) =
     (if prefix ''stud'' (str_lower s) then [(Some (s ! 3), drop 4 s, [(1, take 4 s)])] else []) @
     (if prefix ''anchor'' (str_lower s) then [(Some (s ! 5), drop 6 s, [(1, take 6 s)])] else []) @
     (if prefix ''hole'' (str_lower s) then [(Some (s ! 3), drop 4 s, [(1, take 4 s)])] else []) @
     (if prefix ''bolt'' (str_lower s) then [(Some (s ! 3), drop 4 s, [(1, take 4 s)])] else [])"
proof -
  have len: "prefix k (str_lower s) \<Longrightarrow> length k \<le> length s" for k
    by (auto simp: prefix_def str_lower_def dest: arg_cong [where f = length])
  have t: "prefix k (str_lower s) \<Longrightarrow> length k = n \<Longrightarrow> take (length s - (length s - n)) s = take n s" for k n
    using len [of k] by simp
  show ?thesis
    using t [of "''stud''" 4] t [of "''anchor''" 6] t [of "''hole''" 4] t [of "''bolt''" 4]
    by (simp add: type_re_def step_lit lower_keywords eval_nat_numeral del: lit.simps)
qed

lemma first_match_keyword:
  "(case scan True type_re False p s of [] \<Rightarrow> ''unknown'' | m # _ \<Rightarrow> str_lower (group_text m 1))
     = first_keyword (str_lower s)"
proof (induction s arbitrary: p)
  case Nil
  show ?case by (subst scan_first) (simp add: step_type_re str_lower_def)
next
  case (Cons c cs)
  have l: "str_lower (c # cs) = lower_char c # str_lower cs" by (simp add: str_lower_def)
  have g: "prefix k (str_lower (c # cs)) \<Longrightarrow> length k = n \<Longrightarrow>
             str_lower (group_text (w, [(1, take n (c # cs))]) 1) = k" for k n w
    using prefix_take [of k "str_lower (c # cs)"]
    by (simp add: group_text_def match_group_def lower_take)
  show ?case
    using Cons.IH [of "Some c"] g [of "''stud''" 4] g [of "''anchor''" 6] g [of "''hole''" 4] g [of "''bolt''" 4]
    by (subst scan_first) (auto simp: step_type_re l)
qed

lemma thread_type_keyword: "thread_type v = first_keyword (str_lower v)"
  using first_match_keyword [of None v]
  by (auto simp: thread_type_def search_def finditer_def split: list.splits)

lemma first_keyword_cases:
  "first_keyword l \<in> {''stud'', ''anchor'', ''hole'', ''bolt'', ''unknown''}"
  by (induction l rule: first_keyword.induct) auto

lemma first_keyword_in:
  "first_keyword l = k \<Longrightarrow> k \<noteq> ''unknown'' \<Longrightarrow> str_in k l"
  by (induction l rule: first_keyword.induct) (auto split: if_splits)

lemma thread_class_None:
  "ty \<noteq> ''stud'' \<Longrightarrow> ty \<noteq> ''anchor'' \<Longrightarrow> ty \<noteq> ''hole'' \<Longrightarrow> thread_class ty x = None"
  by (simp add: thread_class_def)

lemma fold_add_class_None: "fold (\<lambda>m. add_class None) ms S = S"
  by (induction ms) (simp_all add: add_class_def)

lemma classify_thread_None:
  assumes "thread_type v \<noteq> ''stud''" "thread_type v \<noteq> ''anchor''" "thread_type v \<noteq> ''hole''"
  shows "classify_thread v = None"
  using assms by (simp add: classify_thread_def Let_def thread_class_None fold_add_class_None)

lemma fold_add_class_set:
  "fold (\<lambda>m. add_class (f m)) ms S = S \<union> {l. \<exists>m\<in>set ms. f m = Some l}"
  by (induction ms arbitrary: S) (auto simp: add_class_def split: option.splits)

lemma first_keyword_unknown:
  "first_keyword l = ''unknown'' \<Longrightarrow>
     \<not> str_in ''stud'' l \<and> \<not> str_in ''anchor'' l \<and> \<not> str_in ''hole'' l \<and> \<not> str_in ''bolt'' l"
  by (induction l rule: first_keyword.induct) (auto split: if_splits)

lemma no_match_unknown:
  "(scan True type_re False p s = []) = (first_keyword (str_lower s) = ''unknown'')"
proof (induction s arbitrary: p)
  case Nil
  show ?case by (subst scan_first) (simp add: step_type_re str_lower_def)
next
  case (Cons c cs)
  have l: "str_lower (c # cs) = lower_char c # str_lower cs" by (simp add: str_lower_def)
  show ?case
    using Cons.IH [of "Some c"] by (subst scan_first) (auto simp: step_type_re l)
qed

lemma thread_type_unknown: "(thread_type v = ''unknown'') = (search True type_re v = None)"
  using no_match_unknown [of None v]
  by (auto simp: thread_type_keyword search_def finditer_def split: list.splits)



subsection \<open>The duty type of a text with \<open>mm\<close> put behind a number\<close>







text \<open>
  C8, amended: for every thread string the duty type depends only on the lower-cased
  string (the extraction is case-insensitive); it is \<open>"unknown"\<close> exactly when the
  search for \<open>(Stud|Anchor|Hole|Bolt)\<close> finds nothing, and then none of the four words
  is present; when none of \<open>stud\<close>, \<open>anchor\<close>, \<open>hole\<close> is present the duty type is
  none of these three and \<open>classify_thread\<close> returns no classification at all; in
  particular \<open>classify_thread("M8x1.25")\<close> is \<open>None\<close>.
\<close>

theorem duty_type:
  "(str_lower v = str_lower w \<longrightarrow> thread_type v = thread_type w) \<and>
   (thread_type v = ''unknown'') = (search True type_re v = None) \<and>
   (thread_type v = ''unknown'' \<longrightarrow>
      \<not> str_in ''stud'' (str_lower v) \<and> \<not> str_in ''anchor'' (str_lower v) \<and>
      \<not> str_in ''hole'' (str_lower v) \<and> \<not> str_in ''bolt'' (str_lower v)) \<and>
   (\<not> str_in ''stud'' (str_lower v) \<and> \<not> str_in ''anchor'' (str_lower v) \<and>
    \<not> str_in ''hole'' (str_lower v)
      \<longrightarrow> thread_type v \<noteq> ''stud'' \<and> thread_type v \<noteq> ''anchor'' \<and> thread_type v \<noteq> ''hole'' \<and>
          classify_thread v = None) \<and>
   classify_thread ''M8x1.25'' = None"
proof -
  have i: "thread_type u = k \<Longrightarrow> k \<noteq> ''unknown'' \<Longrightarrow> str_in k (str_lower u)" for u k
    using first_keyword_in [of "str_lower u" k] by (simp add: thread_type_keyword)
  have 1: "str_lower v = str_lower w \<longrightarrow> thread_type v = thread_type w"
    by (simp add: thread_type_keyword)
  have 2: "thread_type v = ''unknown'' \<longrightarrow>
      \<not> str_in ''stud'' (str_lower v) \<and> \<not> str_in ''anchor'' (str_lower v) \<and>
      \<not> str_in ''hole'' (str_lower v) \<and> \<not> str_in ''bolt'' (str_lower v)"
    using first_keyword_unknown [of "str_lower v"] by (simp add: thread_type_keyword)
  have 3: "\<not> str_in ''stud'' (str_lower v) \<and> \<not> str_in ''anchor'' (str_lower v) \<and>
    \<not> str_in ''hole'' (str_lower v)
      \<longrightarrow> thread_type v \<noteq> ''stud'' \<and> thread_type v \<noteq> ''anchor'' \<and> thread_type v \<noteq> ''hole'' \<and>
          classify_thread v = None"
    using i [of v "''stud''"] i [of v "''anchor''"] i [of v "''hole''"] classify_thread_None [of v]
    by auto
  have "thread_type ''M8x1.25'' = ''unknown''"
    by (simp add: thread_type_keyword) code_simp
  then have 4: "classify_thread ''M8x1.25'' = None"
    by (simp add: classify_thread_None)
  from 1 thread_type_unknown [of v] 2 3 4 show ?thesis by blast
qed

theorem duty_type_witness:
  "str_lower ''M8x1.25'' = str_lower ''m8X1.25'' \<and> thread_type ''M8x1.25'' = thread_type ''m8X1.25'' \<and>
   thread_type ''M8x1.25'' = ''unknown'' \<and> search True type_re ''M8x1.25'' = None \<and>
   \<not> str_in ''stud'' (str_lower ''M8x1.25'') \<and> \<not> str_in ''anchor'' (str_lower ''M8x1.25'') \<and>
   \<not> str_in ''hole'' (str_lower ''M8x1.25'') \<and> \<not> str_in ''bolt'' (str_lower ''M8x1.25'') \<and>
   classify_thread ''M8x1.25'' = None \<and>
   \<not> str_in ''stud'' (str_lower ''M10 Bolt'') \<and> \<not> str_in ''anchor'' (str_lower ''M10 Bolt'') \<and>
   \<not> str_in ''hole'' (str_lower ''M10 Bolt'') \<and>
   thread_type ''M10 Bolt'' \<noteq> ''stud'' \<and> thread_type ''M10 Bolt'' \<noteq> ''anchor'' \<and>
   thread_type ''M10 Bolt'' \<noteq> ''hole'' \<and> classify_thread ''M10 Bolt'' = None"
proof -
  have a: "str_lower ''M8x1.25'' = str_lower ''m8X1.25''" by code_simp
  have b: "thread_type ''M8x1.25'' = ''unknown''" by code_simp
  have c: "\<not> str_in ''stud'' (str_lower ''M10 Bolt'') \<and> \<not> str_in ''anchor'' (str_lower ''M10 Bolt'') \<and>
    \<not> str_in ''hole'' (str_lower ''M10 Bolt'')"
    by code_simp
  from a b duty_type [of "''M8x1.25''" "''m8X1.25''"]
  have 1: "thread_type ''M8x1.25'' = thread_type ''m8X1.25'' \<and>
           search True type_re ''M8x1.25'' = None \<and>
           \<not> str_in ''stud'' (str_lower ''M8x1.25'') \<and> \<not> str_in ''anchor'' (str_lower ''M8x1.25'') \<and>
           \<not> str_in ''hole'' (str_lower ''M8x1.25'') \<and> \<not> str_in ''bolt'' (str_lower ''M8x1.25'') \<and>
           classify_thread ''M8x1.25'' = None"
    by blast
  from c duty_type [of "''M10 Bolt''" "''M10 Bolt''"]
  have 2: "thread_type ''M10 Bolt'' \<noteq> ''stud'' \<and> thread_type ''M10 Bolt'' \<noteq> ''anchor'' \<and>
           thread_type ''M10 Bolt'' \<noteq> ''hole'' \<and> classify_thread ''M10 Bolt'' = None"
    by blast
  from a b c 1 2 show ?thesis by blast
qed

text \<open>
  C8, as stated, fails on the duty type: the pattern has a fourth word, \<open>Bolt\<close>. In
  \<open>"M10 Bolt"\<close> none of \<open>stud\<close>, \<open>anchor\<close>, \<open>hole\<close> is present and the duty type is
  \<open>"bolt"\<close>, not \<open>"unknown"\<close>.
\<close>

theorem duty_type_counterexample:
  "\<not> str_in ''stud'' (str_lower ''M10 Bolt'') \<and> \<not> str_in ''anchor'' (str_lower ''M10 Bolt'') \<and>
   \<not> str_in ''hole'' (str_lower ''M10 Bolt'') \<and> thread_type ''M10 Bolt'' = ''bolt'' \<and>
   thread_type ''M10 Bolt'' \<noteq> ''unknown''"
  by code_simp

section \<open>The diameter classifier\<close>

lemma labels_classify_diameter:
  "labels (classify_diameter v) =
     {l. \<exists>m\<in>set (finditer True size_re v). diameter_class (diameter_size m) = Some l}"
  by (simp add: classify_diameter_def fold_add_class_set Let_def labels_def)

lemma classify_diameter_labels:
  "classify_diameter v =
     (if labels (classify_diameter v) = {} then None else Some (labels (classify_diameter v)))"
  by (simp add: classify_diameter_def Let_def labels_def)

lemma diameter_class_bands:
  "diameter_class (Finite x) =
     (if 6 \<le> x \<and> x \<le> 8 then Some ''Class A Pipe''
      else if 8 < x \<and> x \<le> 10 then Some ''Class B Pipe''
      else if 10 < x \<and> x \<le> 12 then Some ''Class C Pipe''
      else None)"
  "diameter_class Infinity = None"
  by (simp_all add: diameter_class_def f_le_def f_ge_def f_gt_def)

lemma diameter_class_set:
  "{l. diameter_class sz = Some l} =
     (case sz of
        Finite x \<Rightarrow>
          if 6 \<le> x \<and> x \<le> 8 then {''Class A Pipe''}
          else if 8 < x \<and> x \<le> 10 then {''Class B Pipe''}
          else if 10 < x \<and> x \<le> 12 then {''Class C Pipe''}
          else {}
      | Infinity \<Rightarrow> {})"
  by (cases sz) (auto simp: diameter_class_bands)


subsection \<open>The size of a number with and without a unit\<close>

lemma diameter_size_mm:
  assumes "str_lower u = ''mm''"
  shows "diameter_size (w, [(2, u), (1, n)]) = fdiv (py_float n) f25_4"
proof -
  from assms have "u \<noteq> []" by (auto simp: str_lower_def)
  with assms show ?thesis
    by (simp add: diameter_size_def unit_of_def match_group_def group_text_def)
qed





lemma token_mm:
  assumes "decimal_literal n" and "list_all is_space ws" and "cased ic u = ''mm''"
  shows "token ic n ws u post"
  using assms by (simp add: token_def)


subsection \<open>The labels of a text around a number\<close>

lemma labels_diameter_token:
  assumes "pre = [] \<or> (\<not> is_digit (last pre) \<and> last pre \<noteq> CHR ''.'')" and "token True n ws u post"
  shows "labels (classify_diameter (pre @ n @ ws @ u @ post)) =
           labels (classify_diameter pre) \<union>
           {l. diameter_class (diameter_size (n @ ws @ u, if u = [] then [(1, n)] else [(2, u), (1, n)])) = Some l} \<union>
           labels (classify_diameter post)"
  unfolding labels_classify_diameter finditer_token [OF assms] by auto


lemma labels_no_digits:
  assumes "\<forall>c\<in>set s. \<not> is_digit c"
  shows "finditer ic size_re s = []" and "labels (classify_diameter s) = {}"
proof -
  show e: "finditer ic size_re s = []" for ic
    using scan_size_nondigits [OF assms] by (simp add: finditer_def)
  show "labels (classify_diameter s) = {}"
    by (simp add: labels_classify_diameter e)
qed

text \<open>
  A number with the unit \<open>mm\<close>, anywhere in a text: it gets the band of the float
  quotient \<open>float(n) / 25.4\<close>, and the result is made of this label and those of the
  text before and behind the number.
\<close>

lemma classify_diameter_mm_number:
  assumes "decimal_literal n" and "list_all is_space ws" and "str_lower u = ''mm''"
    and "pre = [] \<or> (\<not> is_digit (last pre) \<and> last pre \<noteq> CHR ''.'')"
  shows "labels (classify_diameter (pre @ n @ ws @ u @ post)) =
           labels (classify_diameter pre) \<union>
           (case fdiv (py_float n) f25_4 of
              Finite x \<Rightarrow>
                if 6 \<le> x \<and> x \<le> 8 then {''Class A Pipe''}
                else if 8 < x \<and> x \<le> 10 then {''Class B Pipe''}
                else if 10 < x \<and> x \<le> 12 then {''Class C Pipe''}
                else {}
            | Infinity \<Rightarrow> {}) \<union>
           labels (classify_diameter post)"
proof -
  from assms(3) have u: "u \<noteq> []" "cased True u = ''mm''"
    by (auto simp: cased_def str_lower_def)
  from labels_diameter_token [OF assms(4) token_mm [OF assms(1,2) u(2)], of post] u(1)
  show ?thesis
    by (simp only: if_False diameter_size_mm [OF assms(3)] diameter_class_set)
qed

lemma classify_diameter_empty: "labels (classify_diameter []) = {}"
  by (simp add: labels_no_digits)

lemma finditer_M8_stud: "finditer False size_re ''M8 stud'' = [(''8 '', [(1, ''8'')])]"
  by code_simp

lemma thread_type_M8_stud: "thread_type ''M8 stud'' = ''stud''"
  by code_simp

lemma decimal_8: "decimal ''8'' = 8"
  by code_simp

lemma classify_thread_M8_stud: "classify_thread ''M8 stud'' = Some {''Light Duty Stud''}"
  by (simp add: classify_thread_def finditer_M8_stud thread_type_M8_stud thread_size_def
      group_text_def match_group_def unit_of_def py_float_def decimal_8 float_eval thread_class_def
      f_le_def add_class_def)

lemma decimal_203: "decimal ''203'' = 203"
  by code_simp

lemma fdiv_203: "fdiv (py_float ''203'') f25_4 = Finite (4499166950571903 / 562949953421312)"
  by (simp add: py_float_def decimal_203 f25_4_value fdiv_def float_eval)

lemma classify_diameter_203mm: "classify_diameter ''203mm'' = Some {''Class A Pipe''}"
proof -
  have "decimal_literal ''203''" "list_all is_space []" "str_lower ''mm'' = ''mm''" by code_simp+
  from classify_diameter_mm_number [OF this, of "[]" "[]"]
  have "labels (classify_diameter ''203mm'') = {''Class A Pipe''}"
    by (simp add: classify_diameter_empty fdiv_203)
  then show ?thesis
    by (subst classify_diameter_labels) simp
qed

lemma decimal_304_8: "decimal ''304.8'' = 1524 / 5"
  by code_simp

lemma fdiv_304_8: "fdiv (py_float ''304.8'') f25_4 = Finite (6755399441055745 / 562949953421312)"
  by (simp add: py_float_def decimal_304_8 f25_4_value fdiv_def float_eval)

lemma classify_diameter_304_8: "classify_diameter ''304.8 mm'' = None"
proof -
  have "decimal_literal ''304.8''" "list_all is_space '' ''" "str_lower ''mm'' = ''mm''" by code_simp+
  from classify_diameter_mm_number [OF this, of "[]" "[]"]
  have "labels (classify_diameter ''304.8 mm'') = {}"
    by (simp add: classify_diameter_empty fdiv_304_8)
  then show ?thesis
    by (subst classify_diameter_labels) simp
qed

lemma decimal_12: "decimal ''12'' = 12"
  by code_simp

lemma classify_diameter_12in: "classify_diameter ''12in'' = Some {''Class C Pipe''}"
proof -
  have "token True ''12'' [] ''in'' []" by code_simp
  from labels_diameter_token [OF _ this, of "[]"]
  have "labels (classify_diameter ''12in'') = {''Class C Pipe''}"
    by (simp add: classify_diameter_empty diameter_size_def unit_of_def match_group_def
        group_text_def lower_mm py_float_def decimal_12 float_eval diameter_class_set)
  then show ?thesis
    by (subst classify_diameter_labels) simp
qed

text \<open>
  C6: the claim fails at the upper bound of Class C. \<open>304.8 / 25.4\<close> is \<open>12\<close>, which
  lies in \<open>(10, 12]\<close>; the code divides the float nearest to \<open>304.8\<close> by the float
  nearest to \<open>25.4\<close>, the float quotient is \<open>12 + 2\<^sup>-\<^sup>4\<^sup>9\<close>, and
  \<open>classify_diameter("304.8 mm")\<close> is \<open>None\<close>, while the same diameter written
  \<open>"12in"\<close> is Class C. \<open>classify_diameter("203mm")\<close> is \<open>["Class A Pipe"]\<close>, as the
  claim says.
\<close>

theorem classify_diameter_upper_bound:
  "decimal ''304.8'' / (254 / 10) = 12 \<and>
   fdiv (py_float ''304.8'') f25_4 = Finite (12 + 1 / 2 ^ 49) \<and>
   classify_diameter ''304.8 mm'' = None \<and>
   classify_diameter ''12in'' = Some {''Class C Pipe''} \<and>
   classify_diameter ''203mm'' = Some {''Class A Pipe''}"
  by (simp add: decimal_304_8 fdiv_304_8 classify_diameter_304_8 classify_diameter_12in
      classify_diameter_203mm)




lemma decimal_30: "decimal ''30'' = 30"
  by code_simp


lemma fdiv_30: "fdiv (py_float ''30'') f25_4 = Finite (2659606079155805 / 2251799813685248)"
  by (simp add: py_float_def decimal_30 f25_4_value fdiv_def float_eval)

section \<open>Numbers without a unit\<close>












section \<open>Failures of the model-backed calls\<close>

text \<open>
  C2, as stated, fails for the merge call: it has no handler, so an exception raised in
  it is not turned into an error object; it ends the run of the script.
\<close>

theorem merge_failure_uncaught:
  "pipeline (\<lambda>p n. Inr ()) (\<lambda>d nd r. Inl ''quota'') ''DIA 5'' [] = Uncaught ''quota''"
  by (simp add: pipeline_def Let_def)

text \<open>
  C2, amended: a failure of the notes pass or of the full-document pass is captured as
  the error object of that pass and does not abort the pipeline: the merge call is made
  with the error objects as its input, and the run goes on with the merged fields
  whenever the merge call returns. An exception raised in the merge call itself is not
  captured and ends the run.
\<close>

theorem pass_failures_captured:
  "(call n ''notes_extraction'' = Inl e \<longrightarrow> llm_pass call n ''notes_extraction'' = Error_object e) \<and>
   (call t ''doc_extraction'' = Inl e \<longrightarrow> llm_pass call t ''doc_extraction'' = Error_object e) \<and>
   (merge_call (llm_pass call t ''doc_extraction'') (llm_pass call n ''notes_extraction'') (regex_pass t) = Inr m
      \<longrightarrow> pipeline call merge_call t n = Merged m) \<and>
   (merge_call (llm_pass call t ''doc_extraction'') (llm_pass call n ''notes_extraction'') (regex_pass t) = Inl e
      \<longrightarrow> pipeline call merge_call t n = Uncaught e)"
  by (simp add: pipeline_def llm_pass_def Let_def)

theorem pass_failures_captured_witness:
  "llm_pass (\<lambda>p n. Inl ''timeout'') ''NOTE 1'' ''notes_extraction'' = (Error_object ''timeout'' :: unit pass_data) \<and>
   llm_pass (\<lambda>p n. Inl ''timeout'') ''DIA 5'' ''doc_extraction'' = (Error_object ''timeout'' :: unit pass_data) \<and>
   pipeline (\<lambda>p n. Inl ''timeout'') (\<lambda>d nd r. Inr ()) ''DIA 5'' ''NOTE 1'' = Merged () \<and>
   pipeline (\<lambda>p n. Inl ''timeout'') (\<lambda>d nd r. Inl ''quota'') ''DIA 5'' ''NOTE 1'' = (Uncaught ''quota'' :: unit run)"
  using pass_failures_captured [of "\<lambda>p n. Inl ''timeout''" "''NOTE 1''" "''timeout''" "''DIA 5''"
      "\<lambda>d nd r. Inr ()" "()"]
    pass_failures_captured [of "\<lambda>p n. Inl ''timeout''" "''NOTE 1''" "''quota''" "''DIA 5''"
      "\<lambda>d nd r. Inl ''quota''" "()"]
  by simp

section \<open>The fallback pass of the source locator\<close>

lemma fold_max_ge: "b \<le> fold max xs (b::nat)"
proof (induction xs arbitrary: b)
  case Nil
  then show ?case by simp
next
  case (Cons x xs)
  have "max x b \<le> fold max xs (max x b)" by (rule Cons.IH)
  then show ?case by simp
qed

lemma list_ex_score: "list_ex (part_in w) (str_split t) \<longleftrightarrow> 0 < score t w"
  by (auto simp: score_def list_ex_iff filter_empty_conv)

lemma fuzzy_fold:
  "fuzzy t ws b bm =
     (let m = fold max (map (score t) ws) b in if m = b then bm else find (\<lambda>w. score t w = m) ws)"
proof (induction ws arbitrary: b bm)
  case Nil
  then show ?case by simp
next
  case (Cons w ws)
  show ?case
  proof (cases "b < score t w")
    case True
    then have m: "max (score t w) b = score t w" by simp
    have ge: "score t w \<le> fold max (map (score t) ws) (score t w)" by (rule fold_max_ge)
    from True have "list_ex (part_in w) (str_split t)" by (simp add: list_ex_score)
    with True have "fuzzy t (w # ws) b bm = fuzzy t ws (score t w) (Some w)" by simp
    also have "\<dots> = (let m = fold max (map (score t) ws) (score t w)
                      in if m = score t w then Some w else find (\<lambda>w. score t w = m) ws)"
      by (rule Cons.IH)
    finally show ?thesis using True ge by (auto simp: m Let_def)
  next
    case False
    then have m: "max (score t w) b = b" by simp
    have ge: "b \<le> fold max (map (score t) ws) b" by (rule fold_max_ge)
    from False have "fuzzy t (w # ws) b bm = fuzzy t ws b bm" by simp
    also have "\<dots> = (let m = fold max (map (score t) ws) b
                      in if m = b then bm else find (\<lambda>w. score t w = m) ws)"
      by (rule Cons.IH)
    finally show ?thesis using False ge by (auto simp: m Let_def)
  qed
qed

lemma fuzzy_first_highest: "fuzzy t ws 0 None = first_highest t ws"
  by (simp add: fuzzy_fold first_highest_def max_score_def Let_def)

lemma find_none: "(\<forall>w\<in>set ws. \<not> P w) \<Longrightarrow> find P ws = None"
  by (simp add: find_None_iff)

text \<open>
  C4, amended: whenever the exact pass finds no page token that contains the snippet as
  a case-insensitive substring and the context argument is not empty, the fallback pass
  runs and returns the box of the first highest-scoring token if some score is above
  zero, and nothing otherwise; when the context is the empty string the fallback pass
  does not run and nothing is returned.
\<close>

theorem fuzzy_fallback:
  assumes "\<forall>w\<in>set words. \<not> part_in w t"
  shows "(context \<noteq> [] \<longrightarrow>
            find_text_locations words t context = map_option box_of (first_highest t words)) \<and>
         (context = [] \<longrightarrow> find_text_locations words t context = None)"
  using find_none [OF assms]
  by (cases "first_highest t words") (simp_all add: find_text_locations_def fuzzy_first_highest)

theorem fuzzy_fallback_witness:
  "\<not> part_in (Word ''M8x1.25'' (1::int) 2 3 4) ''M8 stud'' \<and>
   \<not> part_in (Word ''thread'' (5::int) 6 7 8) ''M8 stud'' \<and>
   find_text_locations [Word ''M8x1.25'' (1::int) 2 3 4, Word ''thread'' 5 6 7 8] ''M8 stud'' ''Back face'' =
     Some (Bbox 1 2 3 4) \<and>
   find_text_locations [Word ''M8x1.25'' (1::int) 2 3 4, Word ''thread'' 5 6 7 8] ''M8 stud'' [] = None"
proof -
  have h1: "\<not> part_in (Word ''M8x1.25'' (1::int) 2 3 4) ''M8 stud''"
    by code_simp
  have h2: "\<not> part_in (Word ''thread'' (5::int) 6 7 8) ''M8 stud''"
    by code_simp
  from h1 h2 have h: "\<forall>w\<in>set [Word ''M8x1.25'' (1::int) 2 3 4, Word ''thread'' 5 6 7 8]. \<not> part_in w ''M8 stud''"
    by simp
  have f: "first_highest ''M8 stud'' [Word ''M8x1.25'' (1::int) 2 3 4, Word ''thread'' 5 6 7 8]
             = Some (Word ''M8x1.25'' 1 2 3 4)"
    by code_simp
  show ?thesis
    using h1 h2 fuzzy_fallback [OF h, of "''Back face''"] fuzzy_fallback [OF h, of "[]"]
    by (simp add: f box_of_def)
qed

text \<open>
  C4, as stated, fails for the empty context: the fallback pass is guarded by
  \<open>if context\<close>. Here no token contains the snippet, the first token has score 1, and
  nothing is returned.
\<close>

theorem fuzzy_fallback_counterexample:
  "\<not> part_in (Word ''M8x1.25'' (1::int) 2 3 4) ''M8 stud'' \<and>
   \<not> part_in (Word ''thread'' (5::int) 6 7 8) ''M8 stud'' \<and>
   first_highest ''M8 stud'' [Word ''M8x1.25'' (1::int) 2 3 4, Word ''thread'' 5 6 7 8]
     = Some (Word ''M8x1.25'' 1 2 3 4) \<and>
   score ''M8 stud'' (Word ''M8x1.25'' (1::int) 2 3 4) = 1 \<and>
   find_text_locations [Word ''M8x1.25'' (1::int) 2 3 4, Word ''thread'' 5 6 7 8] ''M8 stud'' [] = None"
  by code_simp

section \<open>Colours of the labels\<close>

lemma fold_add_class_keys:
  assumes "\<And>m l. f m = Some l \<Longrightarrow> color_key l" and "\<forall>l\<in>S. color_key l"
  shows "\<forall>l\<in>fold (\<lambda>m. add_class (f m)) ms S. color_key l"
  using assms(2)
proof (induction ms arbitrary: S)
  case Nil
  then show ?case by simp
next
  case (Cons m ms)
  have "\<forall>l\<in>add_class (f m) S. color_key l"
    using Cons.prems assms(1) [of m] by (auto simp: add_class_def split: option.splits)
  then show ?case using Cons.IH by simp
qed

lemma color_key_simps:
  "color_key ''Class A Pipe''" "color_key ''Class B Pipe''" "color_key ''Class C Pipe''"
  "color_key ''Light Duty Stud''" "color_key ''Heavy Duty Stud''"
  "color_key ''Standard Anchor''" "color_key ''Heavy Duty Anchor''"
  "color_key ''Standard Hole''" "color_key ''Large Hole''"
  "color_key ''Standard Stainless''" "color_key ''Marine Grade Stainless''"
  "color_key ''General Stainless''" "color_key ''Aircraft Grade Aluminum''"
  "color_key ''General Aluminum''" "color_key ''Decorative/Corrosion Resistant''"
  "color_key ''High Strength/Corrosion Resistant''" "color_key ''High Performance Plastic''"
  by (simp_all add: color_key_def CLASSIFICATION_COLORS_def)

lemma diameter_class_key: "diameter_class x = Some l \<Longrightarrow> color_key l"
  by (auto simp: diameter_class_def color_key_simps split: if_splits)

lemma thread_class_key: "thread_class ty x = Some l \<Longrightarrow> color_key l"
  by (auto simp: thread_class_def color_key_simps split: if_splits)

lemma classify_material_key: "classify_material v = Some l \<Longrightarrow> color_key l"
  by (auto simp: classify_material_def Let_def color_key_simps split: if_splits)

lemma classify_diameter_keys: "classify_diameter v = Some S \<Longrightarrow> \<forall>l\<in>S. color_key l"
  using fold_add_class_keys [of "\<lambda>m. diameter_class (diameter_size m)" "{}" "finditer True size_re v"]
  by (auto simp: classify_diameter_def Let_def diameter_class_key split: if_splits)

lemma classify_thread_keys: "classify_thread v = Some S \<Longrightarrow> \<forall>l\<in>S. color_key l"
  using fold_add_class_keys [of "\<lambda>m. thread_class (thread_type v) (thread_size m)" "{}" "finditer False size_re v"]
  by (auto simp: classify_thread_def Let_def thread_class_key split: if_splits)

lemma chip_color_key: "color_key l \<Longrightarrow> \<exists>c. map_of CLASSIFICATION_COLORS l = Some c \<and> chip_color l = c"
  by (auto simp: color_key_def chip_color_def)

text \<open>
  C10: every label that \<open>classify_diameter\<close>, \<open>classify_thread\<close> or
  \<open>classify_material\<close> returns is a key of \<open>CLASSIFICATION_COLORS\<close>, so the colour
  looked up for it is the entry of the table and never the fallback.
\<close>

theorem labels_are_color_keys:
  "(classify_diameter v = Some S \<longrightarrow> (\<forall>l\<in>S. color_key l \<and> map_of CLASSIFICATION_COLORS l = Some (chip_color l))) \<and>
   (classify_thread v = Some S \<longrightarrow> (\<forall>l\<in>S. color_key l \<and> map_of CLASSIFICATION_COLORS l = Some (chip_color l))) \<and>
   (classify_material v = Some l \<longrightarrow> color_key l \<and> map_of CLASSIFICATION_COLORS l = Some (chip_color l))"
  using classify_diameter_keys [of v S] classify_thread_keys [of v S] classify_material_key [of v l]
    chip_color_key by fastforce

lemma finditer_7in: "finditer True size_re ''7in'' = [(''7in'', [(2, ''in''), (1, ''7'')])]"
  by code_simp

lemma decimal_7: "decimal ''7'' = 7"
  by code_simp

lemma classify_diameter_7in: "classify_diameter ''7in'' = Some {''Class A Pipe''}"
  by (simp add: classify_diameter_def finditer_7in diameter_size_def group_text_def match_group_def
      unit_of_def py_float_def decimal_7 float_eval diameter_class_def f_le_def f_ge_def
      add_class_def str_lower_def lower_char_def is_upper_def code_def)

lemma classify_material_PEEK: "classify_material ''PEEK'' = Some ''High Performance Plastic''"
  by code_simp

theorem labels_are_color_keys_witness:
  "classify_diameter ''7in'' = Some {''Class A Pipe''} \<and>
   map_of CLASSIFICATION_COLORS ''Class A Pipe'' = Some (chip_color ''Class A Pipe'') \<and>
   classify_thread ''M8 stud'' = Some {''Light Duty Stud''} \<and>
   map_of CLASSIFICATION_COLORS ''Light Duty Stud'' = Some (chip_color ''Light Duty Stud'') \<and>
   classify_material ''PEEK'' = Some ''High Performance Plastic'' \<and>
   map_of CLASSIFICATION_COLORS ''High Performance Plastic'' =
     Some (chip_color ''High Performance Plastic'')"
  using labels_are_color_keys [of "''7in''" "{''Class A Pipe''}"]
    labels_are_color_keys [of "''M8 stud''" "{''Light Duty Stud''}"]
    labels_are_color_keys [of "''PEEK''" _ "''High Performance Plastic''"]
    classify_diameter_7in classify_thread_M8_stud classify_material_PEEK
  by simp

section \<open>The question cap of the chat session\<close>

lemma on_prompt_count:
  "question_count s \<le> 15 \<Longrightarrow> question_count (fst (on_prompt s p)) \<le> 15"
  by (auto simp: on_prompt_def Let_def split: option.splits sum.splits)

lemma on_prompt_engine:
  "query_engine (fst (on_prompt s p)) = query_engine s"
  by (auto simp: on_prompt_def Let_def split: option.splits sum.splits)

lemma on_prompt_count_engine:
  "(0 < question_count s \<longrightarrow> query_engine s \<noteq> None) \<Longrightarrow>
   0 < question_count (fst (on_prompt s p)) \<longrightarrow> query_engine (fst (on_prompt s p)) \<noteq> None"
  by (auto simp: on_prompt_def Let_def split: option.splits sum.splits)

lemma run_script_inv:
  assumes "session_inv s"
  shows "session_inv (fst (run_script s up prompt))"
proof -
  have a: "session_inv (fst (on_prompt s' p))" if "session_inv s'" for s' p
    using that on_prompt_count [of s' p] on_prompt_count_engine [of s' p]
    by (simp add: session_inv_def)
  have b: "session_inv (s\<lparr>query_engine := Some e\<rparr>)" for e
    using assms by (simp add: session_inv_def)
  show ?thesis
    using assms a b
    by (cases up; cases prompt; cases "query_engine s")
       (auto simp: run_script_def Let_def split_beta)
qed

lemma reachable_inv: "reachable s \<Longrightarrow> session_inv s"
proof (induction rule: reachable.induct)
  case start
  show ?case by (simp add: session_inv_def initial_def)
next
  case (run s up prompt)
  from run.IH show ?case by (rule run_script_inv)
qed

text \<open>
  C7: in every reachable state of the session the counter of accepted questions is at
  most 15; once it is 15, a run with a submitted prompt leaves the session as it is,
  shows the limit message, and does not call the query engine.
\<close>

theorem question_cap:
  assumes "reachable s"
  shows "question_count s \<le> 15 \<and>
         (question_count s = 15 \<longrightarrow>
            (\<forall>up p. p \<noteq> [] \<longrightarrow>
               run_script s up (Some p) =
                 (s, map (\<lambda>(role, content). Show role content) (messages s) @ [Limit_error]) \<and>
               (\<forall>q. Query q \<notin> set (snd (run_script s up (Some p)))) \<and>
               question_count (fst (run_script s up (Some p))) = question_count s))"
proof -
  from assms have inv: "session_inv s" by (rule reachable_inv)
  have "run_script s up (Some p) =
          (s, map (\<lambda>(role, content). Show role content) (messages s) @ [Limit_error])"
    if "question_count s = 15" "p \<noteq> []" for up p
  proof -
    from inv that have "query_engine s \<noteq> None" by (simp add: session_inv_def)
    with that show ?thesis
      by (auto simp: run_script_def on_prompt_def Let_def)
  qed
  with inv show ?thesis by (auto simp: session_inv_def)
qed

lemma reachable_ask: "reachable s \<Longrightarrow> reachable ((ask e p ^^ n) s)"
  by (induction n) (auto simp: ask_def intro: reachable.run)

lemma ask_once:
  assumes "query_engine s = None \<or> query_engine s = Some (\<lambda>p. Inr r)"
    and "question_count s < 15" and "q \<noteq> []"
  shows "query_engine (ask (\<lambda>p. Inr r) q s) = Some (\<lambda>p. Inr r) \<and>
         question_count (ask (\<lambda>p. Inr r) q s) = question_count s + 1"
  using assms by (auto simp: ask_def run_script_def on_prompt_def Let_def)

lemma ask_count:
  assumes "query_engine s = None \<or> query_engine s = Some (\<lambda>p. Inr r)" and "q \<noteq> []"
  shows "question_count s + n \<le> 15 \<Longrightarrow>
         (query_engine ((ask (\<lambda>p. Inr r) q ^^ n) s) = None \<or>
          query_engine ((ask (\<lambda>p. Inr r) q ^^ n) s) = Some (\<lambda>p. Inr r)) \<and>
         question_count ((ask (\<lambda>p. Inr r) q ^^ n) s) = question_count s + n"
proof (induction n)
  case 0
  with assms show ?case by simp
next
  case (Suc n)
  then have ih: "(query_engine ((ask (\<lambda>p. Inr r) q ^^ n) s) = None \<or>
          query_engine ((ask (\<lambda>p. Inr r) q ^^ n) s) = Some (\<lambda>p. Inr r))"
      "question_count ((ask (\<lambda>p. Inr r) q ^^ n) s) = question_count s + n"
    by simp_all
  from Suc.prems ih(2) have "question_count ((ask (\<lambda>p. Inr r) q ^^ n) s) < 15" by simp
  from ask_once [OF ih(1) this assms(2)] ih(2) show ?case by simp
qed

theorem question_cap_witness:
  "reachable ((ask (\<lambda>p. Inr ''yes'') ''why?'' ^^ 15) initial) \<and>
   question_count ((ask (\<lambda>p. Inr ''yes'') ''why?'' ^^ 15) initial) = 15 \<and>
   snd (run_script ((ask (\<lambda>p. Inr ''yes'') ''why?'' ^^ 15) initial) No_files (Some ''again?'')) =
     map (\<lambda>(role, content). Show role content)
       (messages ((ask (\<lambda>p. Inr ''yes'') ''why?'' ^^ 15) initial)) @ [Limit_error] \<and>
   question_count (fst (run_script ((ask (\<lambda>p. Inr ''yes'') ''why?'' ^^ 15) initial) No_files (Some ''again?''))) = 15"
proof -
  have r: "reachable ((ask (\<lambda>p. Inr ''yes'') ''why?'' ^^ 15) initial)"
    by (rule reachable_ask) (rule reachable.start)
  have c: "question_count ((ask (\<lambda>p. Inr ''yes'') ''why?'' ^^ 15) initial) = 15"
    using ask_count [of initial "''yes''" "''why?''" 15] by (simp add: initial_def)
  show ?thesis
    using r c question_cap [OF r] by simp
qed

end
